theory Spec2Isabelle
  imports Complex_Main
begin

section \<open>Data model of bench\_my\_dns.py\<close>

text \<open>
  The dataclass \<open>ServerResult\<close>. Python floats are modelled as \<open>real\<close>: elapsed times are
  finite positive millisecond values, and the aggregation below only adds, divides and
  compares them; the rounding of these operations is not modelled. The two integer fields
  are Python ints.
\<close>

record ServerResult =
  name :: string
  ip :: string
  cached_avg :: real
  uncached_avg :: real
  overall_avg :: real
  min_time :: real
  max_time :: real
  reliability :: real
  total_queries :: int
  successful :: int

text \<open>\<open>ServerResult(name=name, ip=ip)\<close>: every other field takes its default \<open>0\<close>.\<close>

definition ServerResult_default :: "string \<Rightarrow> string \<Rightarrow> ServerResult" where
  "ServerResult_default nm addr =
     \<lparr>name = nm, ip = addr, cached_avg = 0, uncached_avg = 0, overall_avg = 0,
      min_time = 0, max_time = 0, reliability = 0, total_queries = 0, successful = 0\<rparr>"

text \<open>The exceptions the aggregation code of \<open>test_single_server\<close> could raise.\<close>

datatype py_error = StatisticsError | ValueError | ZeroDivisionError

text \<open>
  What one timed \<open>dns.query.udp\<close> call does: it raises (time-out, socket error, malformed
  answer), or it returns and the two \<open>perf_counter\<close> readings give an elapsed time in
  milliseconds.
\<close>

datatype dns_exception = Timeout | NetworkError | BadResponse

datatype probe_outcome = Raised dns_exception | Answered real

text \<open>
  Everything the worker thread does that is visible outside it, in the order it happens:
  the queries it sends and the Qt signals it emits (\<open>progress\<close>, \<open>finished_signal\<close>,
  \<open>error_signal\<close>).
\<close>

datatype event =
    Query string string
  | Progress int string
  | Finished "ServerResult list"
  | ErrorSig string

text \<open>
  The mutable part of a worker thread (\<open>BenchThread\<close> and \<open>SecurityThread\<close> have the
  same): the flag \<open>_is_running\<close>, set to \<open>True\<close> by \<open>__init__\<close> and cleared by \<open>stop\<close>,
  and the trace of the thread's events so far.
\<close>

record 'e thread_state =
  is_running :: bool
  trace :: "'e list"

definition init_thread :: "'e thread_state" where
  "init_thread = \<lparr>is_running = True, trace = []\<rparr>"

definition stop :: "'e thread_state \<Rightarrow> 'e thread_state" where
  "stop s = s\<lparr>is_running := False\<rparr>"

definition emit :: "'e \<Rightarrow> 'e thread_state \<Rightarrow> 'e thread_state" where
  "emit e s = s\<lparr>trace := trace s @ [e]\<rparr>"

text \<open>
  \<open>stop\<close> is called from the GUI thread. The worker only notices it where it reads the
  flag, so the scheduling is given by the environment: at every read it says whether
  \<open>stop\<close> has been called since the previous read.
\<close>

definition poll :: "bool \<Rightarrow> 'e thread_state \<Rightarrow> 'e thread_state" where
  "poll stop_called s = (if stop_called then stop s else s)"

datatype phase = Cached | Uncached

text \<open>
  The environment of one call of \<open>test_single_server\<close>, indexed by the phase and the loop
  variable \<open>i\<close>: the scheduling of \<open>stop\<close>, the outcome of the probe, and the library
  function \<open>random.choices\<close> as it answers in that iteration: given the population and
  \<open>k\<close>, the elements it draws.
\<close>

record campaign_env =
  stop_called :: "phase \<Rightarrow> nat \<Rightarrow> bool"
  udp :: "phase \<Rightarrow> nat \<Rightarrow> probe_outcome"
  random_choices :: "nat \<Rightarrow> string \<Rightarrow> nat \<Rightarrow> string"

definition ascii_lowercase :: string where
  "ascii_lowercase = ''abcdefghijklmnopqrstuvwxyz''"

text \<open>
  The contract of \<open>random.choices(population, k=k)\<close>, whatever the arguments: from a
  non-empty population it returns \<open>k\<close> elements of the population.
\<close>

definition choices_ok :: "campaign_env \<Rightarrow> bool" where
  "choices_ok E = (\<forall>i population k. population \<noteq> [] \<longrightarrow>
                      length (random_choices E i population k) = k
                    \<and> set (random_choices E i population k) \<subseteq> set population)"

section \<open>BenchThread.test\_single\_server\<close>

text \<open>
  The name queried in iteration \<open>i\<close> of a phase: \<open>"google.com"\<close> in the first loop,
  \<open>f"{''.join(random.choices(string.ascii_lowercase, k=8))}.com"\<close> in the second.
\<close>

definition query_name :: "campaign_env \<Rightarrow> phase \<Rightarrow> nat \<Rightarrow> string" where
  "query_name E ph i =
     (case ph of
        Cached \<Rightarrow> ''google.com''
      | Uncached \<Rightarrow> random_choices E i ascii_lowercase 8 @ ''.com'')"

text \<open>
  The \<open>try\<close> block of one loop iteration, after the query has been built: the timed
  \<open>dns.query.udp\<close> call. An elapsed time is appended only if it is positive; any exception
  is swallowed by \<open>except: pass\<close> and leaves the list as it is.
\<close>

definition timed_probe :: "probe_outcome \<Rightarrow> real list \<Rightarrow> real list" where
  "timed_probe outcome samples =
     (case outcome of
        Raised e \<Rightarrow> samples
      | Answered elapsed \<Rightarrow> (if elapsed > 0 then samples @ [elapsed] else samples))"

text \<open>
  The two \<open>for i in range(self.query_count)\<close> loops have the same body up to the queried
  name, so one function serves both; its list argument is what is left of the range.
  Each iteration reads the flag first and breaks when it is cleared; otherwise it builds
  the query, which the trace records, and makes the timed call.
\<close>

fun probe_loop ::
  "campaign_env \<Rightarrow> phase \<Rightarrow> string \<Rightarrow> nat list \<Rightarrow> real list \<Rightarrow> event thread_state
     \<Rightarrow> real list \<times> event thread_state" where
  "probe_loop E ph addr [] samples s = (samples, s)"
| "probe_loop E ph addr (i # rest) samples s =
     (let s1 = poll (stop_called E ph i) s in
      if \<not> is_running s1 then (samples, s1)
      else probe_loop E ph addr rest (timed_probe (udp E ph i) samples)
             (emit (Query (query_name E ph i) addr) s1))"

text \<open>\<open>statistics.mean\<close>, \<open>min\<close> and \<open>max\<close> raise on an empty list, \<open>/\<close> on a zero divisor.\<close>

definition mean :: "real list \<Rightarrow> py_error + real" where
  "mean xs = (if xs = [] then Inl StatisticsError
              else Inr (sum_list xs / real (length xs)))"

definition py_min :: "real list \<Rightarrow> py_error + real" where
  "py_min xs = (if xs = [] then Inl ValueError else Inr (Min (set xs)))"

definition py_max :: "real list \<Rightarrow> py_error + real" where
  "py_max xs = (if xs = [] then Inl ValueError else Inr (Max (set xs)))"

definition py_div :: "real \<Rightarrow> real \<Rightarrow> py_error + real" where
  "py_div a b = (if b = 0 then Inl ZeroDivisionError else Inr (a / b))"

definition bind_err :: "py_error + 'a \<Rightarrow> ('a \<Rightarrow> py_error + 'b) \<Rightarrow> py_error + 'b" where
  "bind_err m f = (case m of Inl e \<Rightarrow> Inl e | Inr v \<Rightarrow> f v)"

text \<open>
  Lines 747 to 769: the reduction of the two sample lists, in the source's evaluation
  order. \<open>cached_avg and uncached_avg\<close> is Python truthiness: both are nonzero.
\<close>

definition aggregate ::
  "string \<Rightarrow> string \<Rightarrow> int \<Rightarrow> real list \<Rightarrow> real list \<Rightarrow> py_error + ServerResult" where
  "aggregate nm addr query_count cached_times uncached_times =
     (let all_times = cached_times @ uncached_times in
      bind_err (if cached_times \<noteq> [] then mean cached_times else Inr 0) (\<lambda>c_avg.
      bind_err (if uncached_times \<noteq> [] then mean uncached_times else Inr 0) (\<lambda>u_avg.
      let o_avg = (if c_avg \<noteq> 0 \<and> u_avg \<noteq> 0 then (c_avg + u_avg) / 2
                   else max c_avg u_avg) in
      bind_err (if all_times \<noteq> [] then py_min all_times else Inr 0) (\<lambda>mn.
      bind_err (if all_times \<noteq> [] then py_max all_times else Inr 0) (\<lambda>mx.
      bind_err (if query_count \<noteq> 0
                then bind_err (py_div (real (length all_times)) (real_of_int (query_count * 2)))
                       (\<lambda>q. Inr (q * 100))
                else Inr 0) (\<lambda>rel.
      Inr \<lparr>name = nm, ip = addr, cached_avg = c_avg, uncached_avg = u_avg,
           overall_avg = o_avg, min_time = mn, max_time = mx, reliability = rel,
           total_queries = query_count * 2,
           successful = int (length all_times)\<rparr>))))))"

text \<open>
  \<open>range(n)\<close> is empty for \<open>n \<le> 0\<close>, as \<open>[0..<nat n]\<close> is. The outer handler
  \<open>except Exception\<close> returns the default result.
\<close>

definition test_single_server ::
  "campaign_env \<Rightarrow> int \<Rightarrow> string \<Rightarrow> string \<Rightarrow> event thread_state
     \<Rightarrow> ServerResult \<times> event thread_state" where
  "test_single_server E query_count nm addr s =
     (let (cached_times, s1) = probe_loop E Cached addr [0..<nat query_count] [] s;
          (uncached_times, s2) = probe_loop E Uncached addr [0..<nat query_count] [] s1
      in (case aggregate nm addr query_count cached_times uncached_times of
            Inr r \<Rightarrow> r
          | Inl e \<Rightarrow> ServerResult_default nm addr,
          s2))"

text \<open>The samples a campaign collected in each phase, as \<open>test_single_server\<close> binds them.\<close>

definition cached_times_of ::
  "campaign_env \<Rightarrow> int \<Rightarrow> string \<Rightarrow> event thread_state \<Rightarrow> real list" where
  "cached_times_of E query_count addr s =
     fst (probe_loop E Cached addr [0..<nat query_count] [] s)"

definition uncached_times_of ::
  "campaign_env \<Rightarrow> int \<Rightarrow> string \<Rightarrow> event thread_state \<Rightarrow> real list" where
  "uncached_times_of E query_count addr s =
     fst (probe_loop E Uncached addr [0..<nat query_count] []
            (snd (probe_loop E Cached addr [0..<nat query_count] [] s)))"

section \<open>BenchThread.run\<close>

text \<open>
  \<open>int((idx / total) * 100)\<close> divides and multiplies in double precision and truncates. The
  double value is a parameter of the model, \<open>pct_double\<close>; \<open>ieee_pct\<close> is what IEEE 754
  rounding guarantees for it (each of the two operations has a relative error of at most
  \<open>2\<^sup>-\<^sup>5\<^sup>3\<close>), and \<open>exact_pct\<close> is the instance without rounding error.
\<close>

definition py_int :: "real \<Rightarrow> int" where
  "py_int x = (if 0 \<le> x then \<lfloor>x\<rfloor> else \<lceil>x\<rceil>)"

definition ieee_pct :: "(nat \<Rightarrow> nat \<Rightarrow> real) \<Rightarrow> bool" where
  "ieee_pct f = (\<forall>i n. 0 < n \<and> i \<le> n \<longrightarrow>
     \<bar>f i n - 100 * real i / real n\<bar> \<le> (100 * real i / real n) / 2 ^ 50)"

definition exact_pct :: "nat \<Rightarrow> nat \<Rightarrow> real" where
  "exact_pct i n = 100 * real i / real n"

text \<open>
  The environment of one run: the scheduling of \<open>stop\<close> at the flag read at the head of the
  server loop (per index) and at the read after the loop, the environment of each server's
  campaign, and the double arithmetic.
\<close>

record run_env =
  stop_at_server :: "nat \<Rightarrow> bool"
  stop_at_end :: bool
  campaign :: "nat \<Rightarrow> campaign_env"
  pct_double :: "nat \<Rightarrow> nat \<Rightarrow> real"

text \<open>
  The loop \<open>for idx, (name, ip) in enumerate(self.servers.items())\<close>; the dict is its list of
  items. A \<open>ZeroDivisionError\<close> of the progress computation would be swallowed by
  \<open>except: pass\<close> with nothing emitted. \<open>test_single_server\<close> catches every exception
  itself, so the handler that appends a default result has nothing to catch.
\<close>

fun run_loop ::
  "run_env \<Rightarrow> int \<Rightarrow> nat \<Rightarrow> nat \<Rightarrow> (string \<times> string) list \<Rightarrow> ServerResult list
     \<Rightarrow> event thread_state \<Rightarrow> ServerResult list \<times> event thread_state" where
  "run_loop E query_count total' idx [] results s = (results, s)"
| "run_loop E query_count total' idx ((nm, addr) # rest) results s =
     (let s1 = poll (stop_at_server E idx) s in
      if \<not> is_running s1 then (results, s1)
      else
        let s2 = (if total' = 0 then s1
                  else emit (Progress (py_int (pct_double E idx total'))
                               (''Testing '' @ nm @ ''...'')) s1);
            (result, s3) = test_single_server (campaign E idx) query_count nm addr s2
        in run_loop E query_count total' (Suc idx) rest (results @ [result]) s3)"

text \<open>
  \<open>run\<close>: the loop, then, only if the flag is still set, the two final signals. Emitting
  does not raise, so \<open>error_signal\<close> is never emitted.
\<close>

definition run ::
  "run_env \<Rightarrow> (string \<times> string) list \<Rightarrow> int \<Rightarrow> event thread_state \<Rightarrow> event thread_state" where
  "run E servers query_count s =
     (let (results, s1) = run_loop E query_count (length servers) 0 servers [] s;
          s2 = poll (stop_at_end E) s1
      in if is_running s2
         then emit (Finished results) (emit (Progress 100 ''Complete!'') s2)
         else s2)"

text \<open>The local variable \<open>results\<close> when the loop is left.\<close>

definition run_results ::
  "run_env \<Rightarrow> (string \<times> string) list \<Rightarrow> int \<Rightarrow> event thread_state \<Rightarrow> ServerResult list" where
  "run_results E servers query_count s =
     fst (run_loop E query_count (length servers) 0 servers [] s)"

section \<open>MainWindow.start\_benchmark\<close>

text \<open>
  What \<open>start_benchmark\<close> ends with: the warning box, the error box of its handler, or a
  started \<open>BenchThread(servers, self.query_spin.value())\<close>. The table \<open>DNS_SERVERS\<close> and the
  check boxes are parameters; a name without a check box is a \<open>KeyError\<close>. Stopping a
  previous thread that is still running acts on that other thread and is left out.
\<close>

datatype ui_outcome =
    WarningBox string string
  | CriticalBox string
  | Started "(string \<times> string) list" int

definition start_benchmark ::
  "(string \<times> string) list \<Rightarrow> (string \<rightharpoonup> bool) \<Rightarrow> int \<Rightarrow> ui_outcome" where
  "start_benchmark DNS_SERVERS checkboxes query_spin =
     (if list_ex (\<lambda>(n, a). checkboxes n = None) DNS_SERVERS
      then CriticalBox ''Error''
      else
        let servers = filter (\<lambda>(n, a). checkboxes n = Some True) DNS_SERVERS in
        if servers = [] then WarningBox ''Warning'' ''Please select at least one server!''
        else Started servers query_spin)"

section \<open>SecurityThread.run\<close>

datatype rdatatype = A | RRSIG | DNSKEY | OtherType nat

record rrset =
  rr_name :: string
  rdtype :: rdatatype

text \<open>\<open>dns.query.udp\<close> returns a parsed message, of which only \<open>answer\<close> is read, or raises.\<close>

datatype udp_reply = Failed dns_exception | Response "rrset list"

datatype sec_event =
    SecQuery string rdatatype bool string
  | ResultSig string string
  | SecProgress int
  | SecFinished

record security_env =
  sec_stop_at_server :: "nat \<Rightarrow> bool"
  sec_udp :: "nat \<Rightarrow> udp_reply"
  sec_pct_double :: "nat \<Rightarrow> nat \<Rightarrow> real"

text \<open>The status computed by the first \<open>try\<close> block of the loop body, from the reply.\<close>

definition dnssec_status :: "udp_reply \<Rightarrow> string" where
  "dnssec_status reply =
     (case reply of
        Failed e \<Rightarrow> ''error''
      | Response answer \<Rightarrow>
          (let has_dnskey = list_ex (\<lambda>rr. rdtype rr = DNSKEY) answer;
               has_rrsig = list_ex (\<lambda>rr. rdtype rr = RRSIG) answer
           in if has_rrsig then ''valid'' else if has_dnskey then ''signed'' else ''unsigned''))"

fun security_loop ::
  "security_env \<Rightarrow> nat \<Rightarrow> nat \<Rightarrow> (string \<times> string) list \<Rightarrow> sec_event thread_state
     \<Rightarrow> sec_event thread_state" where
  "security_loop E total' i [] s = s"
| "security_loop E total' i ((nm, addr) # rest) s =
     (let s1 = poll (sec_stop_at_server E i) s in
      if \<not> is_running s1 then s1
      else
        let s2 = emit (SecQuery ''cloudflare.com'' DNSKEY True addr) s1;
            status = dnssec_status (sec_udp E i);
            s3 = emit (ResultSig nm status) s2;
            s4 = (if total' = 0 then s3
                  else emit (SecProgress (py_int (sec_pct_double E (i + 1) total'))) s3)
        in security_loop E total' (Suc i) rest s4)"

definition security_run ::
  "security_env \<Rightarrow> (string \<times> string) list \<Rightarrow> sec_event thread_state \<Rightarrow> sec_event thread_state" where
  "security_run E servers s = emit SecFinished (security_loop E (length servers) 0 servers s)"

section \<open>Observations on a run\<close>

text \<open>
  The definitions of this section are not code of the program. They read off a trace, or
  off the functions above, what the properties below are about.
\<close>

fun progress_of :: "event list \<Rightarrow> (int \<times> string) list" where
  "progress_of [] = []"
| "progress_of (Progress p m # es) = (p, m) # progress_of es"
| "progress_of (e # es) = progress_of es"

fun queries_of :: "event list \<Rightarrow> (string \<times> string) list" where
  "queries_of [] = []"
| "queries_of (Query d a # es) = (d, a) # queries_of es"
| "queries_of (e # es) = queries_of es"

text \<open>The two signals that hand something to the caller at the end of a run.\<close>

fun is_delivery :: "event \<Rightarrow> bool" where
  "is_delivery (Finished rs) = True"
| "is_delivery (ErrorSig m) = True"
| "is_delivery e = False"

fun sec_queries_of :: "sec_event list \<Rightarrow> sec_event list" where
  "sec_queries_of [] = []"
| "sec_queries_of (SecQuery d t w a # es) = SecQuery d t w a # sec_queries_of es"
| "sec_queries_of (e # es) = sec_queries_of es"

fun sec_results_of :: "sec_event list \<Rightarrow> (string \<times> string) list" where
  "sec_results_of [] = []"
| "sec_results_of (ResultSig n st # es) = (n, st) # sec_results_of es"
| "sec_results_of (e # es) = sec_results_of es"

text \<open>The number of probes a campaign sent: the queries it added to the trace.\<close>

definition probes_sent ::
  "campaign_env \<Rightarrow> int \<Rightarrow> string \<Rightarrow> string \<Rightarrow> event thread_state \<Rightarrow> nat" where
  "probes_sent E query_count nm addr s =
     length (queries_of (trace (snd (test_single_server E query_count nm addr s))))
       - length (queries_of (trace s))"

text \<open>
  The names queried by the second loop of a campaign: what it added to the trace that the
  first loop left.
\<close>

definition uncached_names ::
  "campaign_env \<Rightarrow> int \<Rightarrow> string \<Rightarrow> event thread_state \<Rightarrow> string list" where
  "uncached_names E query_count addr s =
     (let s1 = snd (probe_loop E Cached addr [0..<nat query_count] [] s);
          s2 = snd (probe_loop E Uncached addr [0..<nat query_count] [] s1)
      in map fst (queries_of (drop (length (trace s1)) (trace s2))))"

text \<open>
  What the campaign of the server at index \<open>idx\<close> returns and sends when nothing stops it
  (it is then entered with the flag set, and its result does not depend on the trace so
  far), and the events of that server's loop iteration in \<open>run\<close>: the progress signal first,
  then the queries of the campaign.
\<close>

definition campaign_result :: "run_env \<Rightarrow> int \<Rightarrow> nat \<Rightarrow> string \<times> string \<Rightarrow> ServerResult" where
  "campaign_result E query_count idx srv =
     fst (test_single_server (campaign E idx) query_count (fst srv) (snd srv) init_thread)"

definition server_events :: "run_env \<Rightarrow> int \<Rightarrow> nat \<Rightarrow> nat \<Rightarrow> string \<times> string \<Rightarrow> event list" where
  "server_events E query_count total' idx srv =
     (if total' = 0 then []
      else [Progress (py_int (pct_double E idx total')) (''Testing '' @ fst srv @ ''...'')])
     @ trace (snd (test_single_server (campaign E idx) query_count (fst srv) (snd srv)
                     init_thread))"

section \<open>Scheduling of stop\<close>

text \<open>
  \<open>never_stopped\<close>: \<open>stop\<close> is not called during the run. \<open>uncancelled E\<close>: the environment
  \<open>E\<close> with every call of \<open>stop\<close> removed. \<open>quiet_before E k\<close>: no call of \<open>stop\<close> is noticed
  before the loop reaches the server at index \<open>k\<close>. \<open>stop_noticed_at E query_count k\<close>: a
  call of \<open>stop\<close> is noticed at the head of the loop iteration of server \<open>k\<close>, or at one of
  the flag reads of its campaign.
\<close>

definition never_stopped :: "run_env \<Rightarrow> bool" where
  "never_stopped E =
     ((\<forall>i. \<not> stop_at_server E i) \<and> \<not> stop_at_end E
      \<and> (\<forall>i ph j. \<not> stop_called (campaign E i) ph j))"

definition uncancelled :: "run_env \<Rightarrow> run_env" where
  "uncancelled E =
     E\<lparr>stop_at_server := (\<lambda>i. False), stop_at_end := False,
       campaign := (\<lambda>i. (campaign E i)\<lparr>stop_called := (\<lambda>ph j. False)\<rparr>)\<rparr>"

definition quiet_before :: "run_env \<Rightarrow> nat \<Rightarrow> bool" where
  "quiet_before E k =
     (\<forall>i<k. \<not> stop_at_server E i \<and> (\<forall>ph j. \<not> stop_called (campaign E i) ph j))"

definition stop_noticed_at :: "run_env \<Rightarrow> int \<Rightarrow> nat \<Rightarrow> bool" where
  "stop_noticed_at E query_count k =
     (stop_at_server E k
      \<or> (\<exists>j<nat query_count. stop_called (campaign E k) Cached j
                              \<or> stop_called (campaign E k) Uncached j))"

section \<open>Example environments\<close>

text \<open>
  A generator that draws the letters \<open>qwertzui\<close> whenever it is asked for eight elements
  of the lowercase alphabet, and \<open>k\<close> times the first element of any other population. A
  stub resolver without any \<open>stop\<close>, answering as given; answers that mix successes and a
  time-out; a campaign stopped at the second cached iteration; a resolver that always
  times out.
\<close>

definition stub_choices :: "nat \<Rightarrow> string \<Rightarrow> nat \<Rightarrow> string" where
  "stub_choices i population k =
     (if population = ascii_lowercase \<and> k = 8 then ''qwertzui''
      else replicate k (hd population))"

definition stub_env :: "(phase \<Rightarrow> nat \<Rightarrow> probe_outcome) \<Rightarrow> campaign_env" where
  "stub_env answers =
     \<lparr>stop_called = (\<lambda>ph i. False), udp = answers, random_choices = stub_choices\<rparr>"

definition mixed_answers :: "phase \<Rightarrow> nat \<Rightarrow> probe_outcome" where
  "mixed_answers ph i =
     (case ph of Cached \<Rightarrow> (if i = 0 then Answered 10 else Answered 30)
               | Uncached \<Rightarrow> (if i = 0 then Answered 40 else Raised Timeout))"

definition stopping_env :: campaign_env where
  "stopping_env =
     \<lparr>stop_called = (\<lambda>ph i. ph = Cached \<and> i = 1), udp = (\<lambda>ph i. Answered 20),
      random_choices = stub_choices\<rparr>"

definition timeout_env :: campaign_env where
  "timeout_env = stub_env (\<lambda>ph i. Raised Timeout)"

text \<open>
  A run in which every probe is answered in 20 ms and nothing rounds; the same run with
  \<open>stop\<close> noticed at the head of the second loop iteration; lists of servers; a window in
  which no check box is ticked, and one in which only Google's is.
\<close>

definition steady_env :: run_env where
  "steady_env =
     \<lparr>stop_at_server = (\<lambda>i. False), stop_at_end = False,
      campaign = (\<lambda>i. stub_env (\<lambda>ph j. Answered 20)), pct_double = exact_pct\<rparr>"

definition cancel_env :: run_env where
  "cancel_env = steady_env\<lparr>stop_at_server := (\<lambda>i. i = 1)\<rparr>"

definition two_servers :: "(string \<times> string) list" where
  "two_servers = [(''Google'', ''8.8.8.8''), (''Cloudflare'', ''1.1.1.1'')]"

definition many_servers :: "nat \<Rightarrow> (string \<times> string) list" where
  "many_servers n = map (\<lambda>i. (''dns'' @ replicate i (CHR ''x''), ''192.0.2.1'')) [0..<n]"

definition no_selection :: "string \<rightharpoonup> bool" where
  "no_selection = (\<lambda>n. Some False)"

definition google_selected :: "string \<rightharpoonup> bool" where
  "google_selected = (\<lambda>n. Some (n = ''Google''))"

text \<open>
  A security check of four servers whose replies carry a signature, only a key, neither,
  and no reply at all.
\<close>

definition sec_stub_env :: "(nat \<Rightarrow> udp_reply) \<Rightarrow> security_env" where
  "sec_stub_env replies =
     \<lparr>sec_stop_at_server = (\<lambda>i. False), sec_udp = replies, sec_pct_double = exact_pct\<rparr>"

definition four_replies :: "nat \<Rightarrow> udp_reply" where
  "four_replies i =
     (if i = 0 then Response [\<lparr>rr_name = ''cloudflare.com.'', rdtype = DNSKEY\<rparr>,
                              \<lparr>rr_name = ''cloudflare.com.'', rdtype = RRSIG\<rparr>]
      else if i = 1 then Response [\<lparr>rr_name = ''cloudflare.com.'', rdtype = DNSKEY\<rparr>]
      else if i = 2 then Response []
      else Failed Timeout)"

definition four_servers :: "(string \<times> string) list" where
  "four_servers = [(''Google'', ''8.8.8.8''), (''Cloudflare'', ''1.1.1.1''),
                   (''Quad9'', ''9.9.9.9''), (''Level3'', ''4.2.2.1'')]"

section \<open>Properties of the probe loop and of the aggregation\<close>

lemma init_thread_sel [simp]: "is_running init_thread" "trace init_thread = []"
  by (simp_all add: init_thread_def)

lemma init_thread_trace_update:
  "init_thread\<lparr>trace := t\<rparr> = \<lparr>is_running = True, trace = t\<rparr>"
  by (simp add: init_thread_def)

lemma thread_state_stopped_eq: "\<not> is_running s \<Longrightarrow> stop s = s"
  by (simp add: stop_def)

lemma timed_probe_pos:
  "\<forall>x\<in>set samples. 0 < x \<Longrightarrow> \<forall>x\<in>set (timed_probe outcome samples). 0 < x"
  by (simp add: timed_probe_def split: probe_outcome.splits)

lemma timed_probe_length: "length (timed_probe outcome samples) \<le> Suc (length samples)"
  by (simp add: timed_probe_def split: probe_outcome.splits)

lemma probe_loop_pos:
  "\<forall>x\<in>set samples. 0 < x \<Longrightarrow> \<forall>x\<in>set (fst (probe_loop E ph addr is samples s)). 0 < x"
proof (induction "is" arbitrary: samples s)
  case Nil
  then show ?case by simp
next
  case (Cons i rest)
  show ?case
    using Cons.IH [OF timed_probe_pos [OF Cons.prems]] Cons.prems
    by (simp add: Let_def)
qed

lemma probe_loop_length:
  "length (fst (probe_loop E ph addr is samples s)) \<le> length samples + length is"
proof (induction "is" arbitrary: samples s)
  case Nil
  then show ?case by simp
next
  case (Cons i rest)
  have "length (fst (probe_loop E ph addr rest (timed_probe (udp E ph i) samples) s'))
          \<le> Suc (length samples) + length rest" for s'
    using Cons.IH [of "timed_probe (udp E ph i) samples" s']
      timed_probe_length [of "udp E ph i" samples] by linarith
  then show ?case by (simp add: Let_def)
qed

lemma probe_loop_not_running:
  "\<not> is_running s \<Longrightarrow> probe_loop E ph addr is samples s = (samples, s)"
  by (cases "is") (simp_all add: Let_def poll_def stop_def)

text \<open>
  The loop in closed form: entered with the flag set, it issues the probes of the indices
  before the first one at which \<open>stop\<close> is noticed, and leaves the flag set only if there is
  no such index.
\<close>

lemma probe_loop_closed:
  "is_running s \<Longrightarrow>
   probe_loop E ph addr is samples s =
     (let issued = takeWhile (\<lambda>i. \<not> stop_called E ph i) is in
      (fold (\<lambda>i. timed_probe (udp E ph i)) issued samples,
       s\<lparr>is_running := (length issued = length is),
         trace := trace s @ map (\<lambda>i. Query (query_name E ph i) addr) issued\<rparr>))"
proof (induction "is" arbitrary: samples s)
  case Nil
  then show ?case by simp
next
  case (Cons i rest)
  show ?case
  proof (cases "stop_called E ph i")
    case True
    then show ?thesis by (simp add: Let_def poll_def stop_def)
  next
    case False
    let ?s2 = "emit (Query (query_name E ph i) addr) s"
    have "is_running ?s2" using Cons.prems by (simp add: emit_def)
    from Cons.IH [OF this] False Cons.prems show ?thesis
      by (simp add: Let_def poll_def emit_def)
  qed
qed

lemma probe_loop_all:
  "is_running s \<Longrightarrow> \<forall>i. \<not> stop_called E ph i \<Longrightarrow>
   probe_loop E ph addr is samples s =
      (fold (\<lambda>i. timed_probe (udp E ph i)) is samples,
       s\<lparr>trace := trace s @ map (\<lambda>i. Query (query_name E ph i) addr) is\<rparr>)"
proof -
  assume run: "is_running s" and ns: "\<forall>i. \<not> stop_called E ph i"
  have tw: "takeWhile (\<lambda>i. \<not> stop_called E ph i) is = is"
    using ns by (simp add: takeWhile_eq_all_conv)
  have "s\<lparr>is_running := True\<rparr> = s" using run by simp
  then show ?thesis
    by (simp add: probe_loop_closed [OF run] tw Let_def)
qed

lemma probe_loop_stopped:
  assumes "is_running s" and "j \<in> set is" and "stop_called E ph j"
  shows "\<not> is_running (snd (probe_loop E ph addr is samples s))"
proof -
  let ?issued = "takeWhile (\<lambda>i. \<not> stop_called E ph i) is"
  have ne: "?issued \<noteq> is"
    using assms(2,3) by (auto simp add: takeWhile_eq_all_conv)
  have "length ?issued \<noteq> length is"
  proof
    assume "length ?issued = length is"
    then have "?issued = take (length is) is"
      using takeWhile_eq_take [of "\<lambda>i. \<not> stop_called E ph i" "is"] by simp
    with ne show False by simp
  qed
  then show ?thesis by (simp add: probe_loop_closed [OF assms(1)] Let_def)
qed

lemma probe_loop_running_mono:
  "is_running (snd (probe_loop E ph addr is samples s)) \<Longrightarrow> is_running s"
  by (cases "is_running s") (simp_all add: probe_loop_not_running)

lemma fold_timed_probe_length:
  "length (fold (\<lambda>i. timed_probe (f i)) is samples) \<le> length samples + length is"
proof (induction "is" arbitrary: samples)
  case Nil
  then show ?case by simp
next
  case (Cons i rest)
  show ?case
    using Cons.IH [of "timed_probe (f i) samples"] timed_probe_length [of "f i" samples]
    by simp
qed

lemma probe_loop_issued:
  "\<exists>issued. length issued \<le> length is
     \<and> fst (probe_loop E ph addr is samples s) = fold (\<lambda>i. timed_probe (udp E ph i)) issued samples
     \<and> trace (snd (probe_loop E ph addr is samples s))
         = trace s @ map (\<lambda>i. Query (query_name E ph i) addr) issued"
proof (cases "is_running s")
  case True
  show ?thesis
    by (rule exI [of _ "takeWhile (\<lambda>i. \<not> stop_called E ph i) is"])
       (simp add: probe_loop_closed [OF True] Let_def length_takeWhile_le)
next
  case False
  show ?thesis
    by (rule exI [of _ "[]"]) (simp add: probe_loop_not_running [OF False])
qed

lemma fold_all_raised:
  "\<forall>i. \<exists>e. f i = Raised e \<Longrightarrow> fold (\<lambda>i. timed_probe (f i)) is samples = samples"
proof (induction "is" arbitrary: samples)
  case Nil
  then show ?case by simp
next
  case (Cons i rest)
  from Cons.prems obtain e where "f i = Raised e" by blast
  then show ?case using Cons.IH [OF Cons.prems] by (simp add: timed_probe_def)
qed

lemma probe_loop_all_raised:
  assumes "\<forall>i. \<exists>e. udp E ph i = Raised e"
  shows "fst (probe_loop E ph addr is samples s) = samples"
proof -
  obtain issued where "fst (probe_loop E ph addr is samples s)
      = fold (\<lambda>i. timed_probe (udp E ph i)) issued samples"
    using probe_loop_issued [of "is" E ph addr samples s] by blast
  then show ?thesis using fold_all_raised [OF assms] by simp
qed

lemma Min_set_in: "xs \<noteq> [] \<Longrightarrow> Min (set xs) \<in> set xs"
  by (rule Min_in) simp_all

lemma Max_set_in: "xs \<noteq> [] \<Longrightarrow> Max (set xs) \<in> set xs"
  by (rule Max_in) simp_all

lemma sum_list_lower: "\<forall>x\<in>set xs. a \<le> x \<Longrightarrow> a * real (length xs) \<le> sum_list xs"
  by (induction xs) (auto simp: algebra_simps)

lemma sum_list_upper: "\<forall>x\<in>set xs. x \<le> b \<Longrightarrow> sum_list xs \<le> b * real (length xs)"
  by (induction xs) (auto simp: algebra_simps)

lemma avg_lower: "xs \<noteq> [] \<Longrightarrow> \<forall>x\<in>set xs. a \<le> x \<Longrightarrow> a \<le> sum_list xs / real (length xs)"
  using sum_list_lower [of xs a] by (simp add: pos_le_divide_eq)

lemma avg_upper: "xs \<noteq> [] \<Longrightarrow> \<forall>x\<in>set xs. x \<le> b \<Longrightarrow> sum_list xs / real (length xs) \<le> b"
  using sum_list_upper [of xs b] by (simp add: pos_divide_le_eq)

lemma avg_pos:
  assumes ne: "xs \<noteq> []" and pos: "\<forall>x\<in>set xs. (0::real) < x"
  shows "0 < sum_list xs / real (length xs)"
proof -
  have "0 < Min (set xs)" using pos Min_set_in [OF ne] by blast
  moreover have "Min (set xs) \<le> sum_list xs / real (length xs)"
    using ne by (intro avg_lower) auto
  ultimately show ?thesis by linarith
qed

lemma avg_between:
  assumes "xs \<noteq> []" and "set xs \<subseteq> set ys"
  shows "Min (set ys) \<le> sum_list xs / real (length xs)"
    and "sum_list xs / real (length xs) \<le> Max (set ys)"
proof -
  have "\<forall>x\<in>set xs. Min (set ys) \<le> x" using assms(2) by (auto intro: Min_le)
  then show "Min (set ys) \<le> sum_list xs / real (length xs)"
    by (rule avg_lower [OF assms(1)])
  have "\<forall>x\<in>set xs. x \<le> Max (set ys)" using assms(2) by (auto intro: Max_ge)
  then show "sum_list xs / real (length xs) \<le> Max (set ys)"
    by (rule avg_upper [OF assms(1)])
qed

text \<open>
  Every operation of the aggregation that can raise is guarded, so \<open>aggregate\<close> never
  returns an error and the outer handler of \<open>test_single_server\<close> is never entered.
\<close>

lemma aggregate_Inr:
  "aggregate nm addr qc cs us =
     Inr \<lparr>name = nm, ip = addr,
          cached_avg = (if cs = [] then 0 else sum_list cs / real (length cs)),
          uncached_avg = (if us = [] then 0 else sum_list us / real (length us)),
          overall_avg =
            (let c = (if cs = [] then 0 else sum_list cs / real (length cs));
                 u = (if us = [] then 0 else sum_list us / real (length us))
             in if c \<noteq> 0 \<and> u \<noteq> 0 then (c + u) / 2 else max c u),
          min_time = (if cs @ us = [] then 0 else Min (set (cs @ us))),
          max_time = (if cs @ us = [] then 0 else Max (set (cs @ us))),
          reliability = (if qc = 0 then 0
                         else real (length (cs @ us)) / real_of_int (qc * 2) * 100),
          total_queries = qc * 2,
          successful = int (length (cs @ us))\<rparr>"
  by (simp add: aggregate_def bind_err_def mean_def py_min_def py_max_def py_div_def Let_def)

lemma test_single_server_result:
  "fst (test_single_server E qc nm addr s) =
     (case aggregate nm addr qc (cached_times_of E qc addr s) (uncached_times_of E qc addr s) of
        Inr r \<Rightarrow> r | Inl e \<Rightarrow> ServerResult_default nm addr)"
  by (simp add: test_single_server_def cached_times_of_def uncached_times_of_def
        split_beta Let_def)

lemma test_single_server_frame:
  assumes "is_running s" and "\<forall>ph i. \<not> stop_called E ph i"
  shows "test_single_server E qc nm addr s =
     (fst (test_single_server E qc nm addr init_thread),
      s\<lparr>trace := trace s @ trace (snd (test_single_server E qc nm addr init_thread))\<rparr>)"
  using assms
  by (simp add: test_single_server_def probe_loop_all init_thread_def Let_def)

lemma test_single_server_stopped:
  assumes "j < nat qc" and "stop_called E Cached j \<or> stop_called E Uncached j"
  shows "\<not> is_running (snd (test_single_server E qc nm addr s))"
proof -
  let ?s1 = "snd (probe_loop E Cached addr [0..<nat qc] [] s)"
  let ?s2 = "snd (probe_loop E Uncached addr [0..<nat qc] [] ?s1)"
  have j: "j \<in> set [0..<nat qc]" using assms(1) by simp
  have "\<not> is_running ?s2"
  proof (cases "is_running s \<and> is_running ?s1")
    case True
    then have "\<not> stop_called E Cached j"
      using probe_loop_stopped [OF _ j, of s E Cached addr "[]"] by blast
    then have "stop_called E Uncached j" using assms(2) by simp
    then show ?thesis using probe_loop_stopped [OF _ j, of ?s1 E Uncached addr "[]"] True
      by blast
  next
    case False
    then have "\<not> is_running ?s1" using probe_loop_running_mono by blast
    then show ?thesis using probe_loop_running_mono by blast
  qed
  then show ?thesis by (simp add: test_single_server_def split_beta Let_def)
qed

lemma cached_times_pos: "\<forall>x\<in>set (cached_times_of E qc addr s). 0 < x"
  unfolding cached_times_of_def by (rule probe_loop_pos) simp

lemma uncached_times_pos: "\<forall>x\<in>set (uncached_times_of E qc addr s). 0 < x"
  unfolding uncached_times_of_def by (rule probe_loop_pos) simp

lemma queries_of_append: "queries_of (xs @ ys) = queries_of xs @ queries_of ys"
  by (induction xs rule: queries_of.induct) simp_all

lemma queries_of_map_Query: "queries_of (map (\<lambda>i. Query (f i) a) is) = map (\<lambda>i. (f i, a)) is"
  by (induction "is") simp_all

lemma campaign_counts:
  "length (cached_times_of E qc addr s) + length (uncached_times_of E qc addr s)
     \<le> probes_sent E qc nm addr s
   \<and> probes_sent E qc nm addr s \<le> 2 * nat qc"
proof -
  let ?r = "[0..<nat qc]"
  let ?p1 = "probe_loop E Cached addr ?r [] s"
  let ?p2 = "probe_loop E Uncached addr ?r [] (snd ?p1)"
  obtain i1 where i1: "length i1 \<le> length ?r"
      "fst ?p1 = fold (\<lambda>i. timed_probe (udp E Cached i)) i1 []"
      "trace (snd ?p1) = trace s @ map (\<lambda>i. Query (query_name E Cached i) addr) i1"
    using probe_loop_issued [of ?r E Cached addr "[]" s] by blast
  obtain i2 where i2: "length i2 \<le> length ?r"
      "fst ?p2 = fold (\<lambda>i. timed_probe (udp E Uncached i)) i2 []"
      "trace (snd ?p2) = trace (snd ?p1) @ map (\<lambda>i. Query (query_name E Uncached i) addr) i2"
    using probe_loop_issued [of ?r E Uncached addr "[]" "snd ?p1"] by blast
  have sent: "probes_sent E qc nm addr s = length i1 + length i2"
    by (simp add: probes_sent_def test_single_server_def split_beta Let_def i1 i2
          queries_of_append queries_of_map_Query)
  have l1: "length (cached_times_of E qc addr s) \<le> length i1"
    using fold_timed_probe_length [of "udp E Cached" i1 "[]"]
    by (simp add: cached_times_of_def i1)
  have l2: "length (uncached_times_of E qc addr s) \<le> length i2"
    using fold_timed_probe_length [of "udp E Uncached" i2 "[]"]
    by (simp add: uncached_times_of_def i2)
  show ?thesis using sent l1 l2 i1(1) i2(1) by simp
qed

subsection \<open>Example campaigns\<close>

lemmas campaign_eval =
  test_single_server_def cached_times_of_def uncached_times_of_def probes_sent_def
  stub_env_def stub_choices_def mixed_answers_def stopping_env_def timeout_env_def
  init_thread_def
  eval_nat_numeral poll_def stop_def emit_def query_name_def timed_probe_def Let_def

lemma mixed_campaign:
  "test_single_server (stub_env mixed_answers) 2 ''Google'' ''8.8.8.8'' init_thread =
     (\<lparr>name = ''Google'', ip = ''8.8.8.8'', cached_avg = 20, uncached_avg = 40,
       overall_avg = 30, min_time = 10, max_time = 40, reliability = 75,
       total_queries = 4, successful = 3\<rparr>,
      \<lparr>is_running = True,
       trace = [Query ''google.com'' ''8.8.8.8'', Query ''google.com'' ''8.8.8.8'',
                Query ''qwertzui.com'' ''8.8.8.8'', Query ''qwertzui.com'' ''8.8.8.8'']\<rparr>)"
  by (simp add: campaign_eval aggregate_Inr)

lemma mixed_samples:
  "cached_times_of (stub_env mixed_answers) 2 ''8.8.8.8'' init_thread = [10, 30]"
  "uncached_times_of (stub_env mixed_answers) 2 ''8.8.8.8'' init_thread = [40]"
  by (simp_all add: campaign_eval)

lemma stopped_campaign:
  "test_single_server stopping_env 3 ''Google'' ''8.8.8.8'' init_thread =
     (\<lparr>name = ''Google'', ip = ''8.8.8.8'', cached_avg = 20, uncached_avg = 0,
       overall_avg = 20, min_time = 20, max_time = 20, reliability = 100 / 6,
       total_queries = 6, successful = 1\<rparr>,
      \<lparr>is_running = False, trace = [Query ''google.com'' ''8.8.8.8'']\<rparr>)"
  by (simp add: campaign_eval aggregate_Inr)

section \<open>The result of one campaign\<close>

text \<open>
  Claim C1. For every campaign reduced by \<open>test_single_server\<close>: a phase has data exactly
  when its average is positive (every kept sample is positive), and otherwise its average
  is \<open>0\<close>. \<open>overall_avg\<close> is the mean of \<open>cached_avg\<close> and \<open>uncached_avg\<close> when both phases
  have data, the average of the phase that has data when exactly one has, and \<open>0\<close> when
  neither has; in particular it is \<open>(cached_avg + uncached_avg) / 2\<close> whenever both averages
  are positive.
\<close>

theorem overall_avg_cases:
  "let r = fst (test_single_server E qc nm addr s);
       cs = cached_times_of E qc addr s;
       us = uncached_times_of E qc addr s
   in (cs \<noteq> [] \<longleftrightarrow> 0 < cached_avg r) \<and> (cs = [] \<longleftrightarrow> cached_avg r = 0)
    \<and> (us \<noteq> [] \<longleftrightarrow> 0 < uncached_avg r) \<and> (us = [] \<longleftrightarrow> uncached_avg r = 0)
    \<and> (cs \<noteq> [] \<and> us \<noteq> [] \<longrightarrow> overall_avg r = (cached_avg r + uncached_avg r) / 2)
    \<and> (cs \<noteq> [] \<and> us = [] \<longrightarrow> overall_avg r = cached_avg r)
    \<and> (cs = [] \<and> us \<noteq> [] \<longrightarrow> overall_avg r = uncached_avg r)
    \<and> (cs = [] \<and> us = [] \<longrightarrow> overall_avg r = 0)
    \<and> (0 < cached_avg r \<and> 0 < uncached_avg r
          \<longrightarrow> overall_avg r = (cached_avg r + uncached_avg r) / 2)"
proof -
  define cs where "cs = cached_times_of E qc addr s"
  define us where "us = uncached_times_of E qc addr s"
  have c: "cs \<noteq> [] \<Longrightarrow> 0 < sum_list cs / real (length cs)"
    unfolding cs_def by (rule avg_pos [OF _ cached_times_pos])
  have u: "us \<noteq> [] \<Longrightarrow> 0 < sum_list us / real (length us)"
    unfolding us_def by (rule avg_pos [OF _ uncached_times_pos])
  show ?thesis
    using c u
    by (cases "cs = []"; cases "us = []")
       (auto simp add: test_single_server_result aggregate_Inr Let_def max_def
          simp flip: cs_def us_def)
qed

theorem overall_avg_cases_witness:
  "let r = fst (test_single_server (stub_env mixed_answers) 2 ''Google'' ''8.8.8.8'' init_thread)
   in cached_times_of (stub_env mixed_answers) 2 ''8.8.8.8'' init_thread \<noteq> []
    \<and> uncached_times_of (stub_env mixed_answers) 2 ''8.8.8.8'' init_thread \<noteq> []
    \<and> 0 < cached_avg r \<and> 0 < uncached_avg r
    \<and> overall_avg r = (cached_avg r + uncached_avg r) / 2"
  using overall_avg_cases [of "stub_env mixed_answers" 2 "''Google''" "''8.8.8.8''" init_thread]
  by (simp add: Let_def mixed_samples)

text \<open>
  Claim C3. For every result of a campaign with a query count of at least \<open>0\<close>, under any
  outcomes of the probes and any scheduling of \<open>stop\<close>: \<open>0 \<le> reliability \<le> 100\<close>,
  \<open>successful \<le> total_queries\<close>, \<open>reliability = successful / total_queries * 100\<close> when
  \<open>total_queries\<close> is not \<open>0\<close>, and \<open>reliability = 0\<close> when it is.
\<close>

theorem reliability_invariant:
  assumes "0 \<le> qc"
  shows "let r = fst (test_single_server E qc nm addr s) in
           0 \<le> reliability r \<and> reliability r \<le> 100
         \<and> successful r \<le> total_queries r
         \<and> (total_queries r \<noteq> 0 \<longrightarrow>
              reliability r = real_of_int (successful r) / real_of_int (total_queries r) * 100)
         \<and> (total_queries r = 0 \<longrightarrow> reliability r = 0)"
proof -
  define n where "n = length (cached_times_of E qc addr s) + length (uncached_times_of E qc addr s)"
  have le: "int n \<le> 2 * qc"
    using campaign_counts [of E qc addr s nm] assms unfolding n_def by linarith
  have r: "0 < qc \<Longrightarrow> real n / (real_of_int qc * 2) * 100 \<le> 100"
  proof -
    assume "0 < qc"
    moreover have "real n \<le> real_of_int qc * 2" using le by linarith
    ultimately show ?thesis by (simp add: pos_divide_le_eq)
  qed
  show ?thesis
    using le r assms
    by (auto simp add: test_single_server_result aggregate_Inr Let_def n_def [symmetric])
qed

theorem reliability_invariant_witness:
  "(0::int) \<le> 2 \<and>
   (let r = fst (test_single_server (stub_env mixed_answers) 2 ''Google'' ''8.8.8.8'' init_thread)
    in total_queries r \<noteq> 0 \<and> successful r \<le> total_queries r \<and> reliability r \<le> 100
     \<and> reliability r = real_of_int (successful r) / real_of_int (total_queries r) * 100)"
proof -
  have h: "(0::int) \<le> 2" by simp
  have t: "total_queries (fst (test_single_server (stub_env mixed_answers) 2 ''Google''
             ''8.8.8.8'' init_thread)) \<noteq> 0"
    by (simp add: mixed_campaign)
  show ?thesis
    using reliability_invariant [OF h, of "stub_env mixed_answers" "''Google''" "''8.8.8.8''"
        init_thread] t
    by (simp add: Let_def)
qed

text \<open>
  Claim C6. \<open>successful\<close> counts the kept samples of both phases; whenever it is positive,
  \<open>min_time\<close> and \<open>max_time\<close> are the least and the greatest of the cached and uncached
  samples together, and \<open>min_time \<le> overall_avg \<le> max_time\<close>.
\<close>

theorem overall_within_min_max:
  "let r = fst (test_single_server E qc nm addr s);
       all_times = cached_times_of E qc addr s @ uncached_times_of E qc addr s
   in successful r = int (length all_times)
    \<and> (0 < successful r \<longrightarrow>
          min_time r = Min (set all_times) \<and> max_time r = Max (set all_times)
        \<and> min_time r \<le> overall_avg r \<and> overall_avg r \<le> max_time r)"
proof -
  define cs where "cs = cached_times_of E qc addr s"
  define us where "us = uncached_times_of E qc addr s"
  have c0: "cs \<noteq> [] \<Longrightarrow> 0 < sum_list cs / real (length cs)"
    unfolding cs_def by (rule avg_pos [OF _ cached_times_pos])
  have u0: "us \<noteq> [] \<Longrightarrow> 0 < sum_list us / real (length us)"
    unfolding us_def by (rule avg_pos [OF _ uncached_times_pos])
  have c: "cs \<noteq> [] \<Longrightarrow> Min (set (cs @ us)) \<le> sum_list cs / real (length cs)
             \<and> sum_list cs / real (length cs) \<le> Max (set (cs @ us))"
    using avg_between [of cs "cs @ us"] by simp
  have u: "us \<noteq> [] \<Longrightarrow> Min (set (cs @ us)) \<le> sum_list us / real (length us)
             \<and> sum_list us / real (length us) \<le> Max (set (cs @ us))"
    using avg_between [of us "cs @ us"] by simp
  have goal: "cs @ us \<noteq> [] \<Longrightarrow>
      (let c = (if cs = [] then 0 else sum_list cs / real (length cs));
           u = (if us = [] then 0 else sum_list us / real (length us));
           ov = (if c \<noteq> 0 \<and> u \<noteq> 0 then (c + u) / 2 else max c u)
       in Min (set (cs @ us)) \<le> ov \<and> ov \<le> Max (set (cs @ us)))"
  proof -
    assume ne: "cs @ us \<noteq> []"
    consider "cs \<noteq> []" "us \<noteq> []" | "cs \<noteq> []" "us = []" | "cs = []" "us \<noteq> []"
      using ne by auto
    then show ?thesis
    proof cases
      case 1
      with c u c0 u0 show ?thesis by (simp add: Let_def)
    next
      case 2
      with c c0 show ?thesis by (simp add: Let_def max_def)
    next
      case 3
      with u u0 show ?thesis by (simp add: Let_def max_def)
    qed
  qed
  show ?thesis
    using goal
    by (simp add: test_single_server_result aggregate_Inr Let_def flip: cs_def us_def)
qed

theorem overall_within_min_max_witness:
  "let r = fst (test_single_server (stub_env mixed_answers) 2 ''Google'' ''8.8.8.8'' init_thread)
   in 0 < successful r \<and> min_time r \<le> overall_avg r \<and> overall_avg r \<le> max_time r"
proof -
  have h: "0 < successful (fst (test_single_server (stub_env mixed_answers) 2 ''Google''
             ''8.8.8.8'' init_thread))"
    by (simp add: mixed_campaign)
  show ?thesis
    using overall_within_min_max [of "stub_env mixed_answers" 2 "''Google''" "''8.8.8.8''"
        init_thread] h
    by (simp add: Let_def)
qed

text \<open>
  Claim C8. If every \<open>dns.query.udp\<close> call of a campaign raises (for example always times
  out), \<open>test_single_server\<close> still returns a result for the server: reliability and the
  three averages are \<open>0\<close>, as are \<open>min_time\<close>, \<open>max_time\<close> and \<open>successful\<close>. No exception
  of a probe leaves the function: it is total and returns a \<open>ServerResult\<close>.
\<close>

theorem all_probes_failing:
  assumes "\<forall>ph i. \<exists>e. udp E ph i = Raised e"
  shows "fst (test_single_server E qc nm addr s) =
           \<lparr>name = nm, ip = addr, cached_avg = 0, uncached_avg = 0, overall_avg = 0,
            min_time = 0, max_time = 0, reliability = 0,
            total_queries = qc * 2, successful = 0\<rparr>"
proof -
  have "cached_times_of E qc addr s = []"
    unfolding cached_times_of_def using assms by (simp add: probe_loop_all_raised)
  moreover have "uncached_times_of E qc addr s = []"
    unfolding uncached_times_of_def using assms by (simp add: probe_loop_all_raised)
  ultimately show ?thesis
    by (simp add: test_single_server_result aggregate_Inr)
qed

theorem all_probes_failing_witness:
  "(\<forall>ph i. \<exists>e. udp timeout_env ph i = Raised e) \<and>
   fst (test_single_server timeout_env 5 ''Google'' ''8.8.8.8'' init_thread) =
     \<lparr>name = ''Google'', ip = ''8.8.8.8'', cached_avg = 0, uncached_avg = 0, overall_avg = 0,
      min_time = 0, max_time = 0, reliability = 0, total_queries = 10, successful = 0\<rparr>"
proof -
  have h: "\<forall>ph i. \<exists>e. udp timeout_env ph i = Raised e"
    by (simp add: timeout_env_def stub_env_def)
  show ?thesis
    using all_probes_failing [OF h, of 5 "''Google''" "''8.8.8.8''" init_thread] h by simp
qed

text \<open>
  Claim C10. For a positive query count the result records \<open>total_queries = 2 * query_count\<close>
  whatever the number of probes really sent, which a \<open>stop\<close> during the campaign makes
  smaller; \<open>reliability\<close> is \<open>successful\<close> over that fixed denominator, so probes never
  sent count like failures. A campaign entered with the flag already cleared sends nothing
  and reports reliability \<open>0\<close> over \<open>2 * query_count\<close> queries.
\<close>

theorem total_queries_counts_unsent:
  assumes "0 < qc"
  shows "let r = fst (test_single_server E qc nm addr s) in
           total_queries r = 2 * qc
         \<and> reliability r = real_of_int (successful r) / real_of_int (total_queries r) * 100
         \<and> successful r \<le> int (probes_sent E qc nm addr s)
         \<and> int (probes_sent E qc nm addr s) \<le> 2 * qc
         \<and> (\<not> is_running s \<longrightarrow> probes_sent E qc nm addr s = 0 \<and> reliability r = 0)"
proof -
  have cnt: "length (cached_times_of E qc addr s) + length (uncached_times_of E qc addr s)
     \<le> probes_sent E qc nm addr s" "probes_sent E qc nm addr s \<le> 2 * nat qc"
    using campaign_counts [of E qc addr s nm] by simp_all
  have stopped: "\<not> is_running s \<Longrightarrow> probes_sent E qc nm addr s = 0
      \<and> cached_times_of E qc addr s = [] \<and> uncached_times_of E qc addr s = []"
    by (simp add: probes_sent_def test_single_server_def cached_times_of_def
          uncached_times_of_def probe_loop_not_running)
  have "int (probes_sent E qc nm addr s) \<le> 2 * qc" using cnt(2) assms by linarith
  then show ?thesis
    using assms cnt(1) stopped
    by (auto simp add: test_single_server_result aggregate_Inr Let_def)
qed

theorem total_queries_counts_unsent_witness:
  "(0::int) < 3 \<and>
   (let r = fst (test_single_server stopping_env 3 ''Google'' ''8.8.8.8'' init_thread)
    in probes_sent stopping_env 3 ''Google'' ''8.8.8.8'' init_thread = 1
     \<and> total_queries r = 6 \<and> successful r = 1 \<and> reliability r = 1 / 6 * 100)"
proof -
  have h: "(0::int) < 3" by simp
  have sent: "probes_sent stopping_env 3 ''Google'' ''8.8.8.8'' init_thread = 1"
    by (simp add: probes_sent_def stopped_campaign)
  have succ: "successful (fst (test_single_server stopping_env 3 ''Google'' ''8.8.8.8''
      init_thread)) = 1"
    by (simp add: stopped_campaign)
  show ?thesis
    using total_queries_counts_unsent [OF h, of stopping_env "''Google''" "''8.8.8.8''"
        init_thread] sent succ
    by (simp add: Let_def)
qed

section \<open>The names of the uncached phase\<close>

lemma suffix_distinct:
  "distinct (map (\<lambda>i. f i @ suf) is) \<longleftrightarrow> distinct (map f is)"
  by (induction "is") auto

lemma uncached_names_issued:
  "\<exists>k\<le>nat qc. uncached_names E qc addr s =
      map (\<lambda>i. random_choices E i ascii_lowercase 8 @ ''.com'') [0..<k]"
proof -
  let ?s1 = "snd (probe_loop E Cached addr [0..<nat qc] [] s)"
  show ?thesis
  proof (cases "is_running ?s1")
    case True
    define k where "k = length (takeWhile (\<lambda>i. \<not> stop_called E Uncached i) [0..<nat qc])"
    have kle: "k \<le> nat qc"
      unfolding k_def using length_takeWhile_le [of _ "[0..<nat qc]"] by simp
    have "takeWhile (\<lambda>i. \<not> stop_called E Uncached i) [0..<nat qc] = take k [0..<nat qc]"
      unfolding k_def by (rule takeWhile_eq_take)
    also have "\<dots> = [0..<k]" using kle by (simp add: take_upt)
    finally have tw: "takeWhile (\<lambda>i. \<not> stop_called E Uncached i) [0..<nat qc] = [0..<k]" .
    have "uncached_names E qc addr s =
            map (\<lambda>i. random_choices E i ascii_lowercase 8 @ ''.com'') [0..<k]"
      by (simp add: uncached_names_def probe_loop_closed [OF True] Let_def tw
            queries_of_map_Query query_name_def comp_def)
    with kle show ?thesis by blast
  next
    case False
    have "uncached_names E qc addr s = []"
      by (simp add: uncached_names_def probe_loop_not_running [OF False])
    then show ?thesis by (intro exI [of _ 0]) simp
  qed
qed

lemma ascii_lowercase_nonempty: "ascii_lowercase \<noteq> []"
  by (simp add: ascii_lowercase_def)

lemma stub_choices_contract:
  "population \<noteq> [] \<Longrightarrow>
     length (stub_choices i population k) = k
   \<and> set (stub_choices i population k) \<subseteq> set population"
  by (cases population) (auto simp add: stub_choices_def ascii_lowercase_def)

lemma stub_env_choices_ok: "choices_ok (stub_env answers)"
  by (simp add: choices_ok_def stub_env_def stub_choices_contract)

text \<open>
  Claim C9, as the code has it. Every probe of the second phase queries the result of
  \<open>random.choices(string.ascii_lowercase, k=8)\<close> followed by \<open>.com\<close>; by the contract of
  \<open>random.choices\<close> for any population and any \<open>k\<close>, that is exactly eight lowercase
  letters and the fixed suffix. The draws are independent, so the names of a campaign are
  pairwise distinct exactly when the draws are; the code has nothing that keeps a draw
  from repeating.
\<close>

theorem uncached_names_shape:
  assumes "choices_ok E"
  shows "\<exists>k\<le>nat qc.
           uncached_names E qc addr s =
             map (\<lambda>i. random_choices E i ascii_lowercase 8 @ ''.com'') [0..<k]
         \<and> (\<forall>d\<in>set (uncached_names E qc addr s).
               length d = 12 \<and> set (take 8 d) \<subseteq> set ''abcdefghijklmnopqrstuvwxyz''
             \<and> drop 8 d = ''.com'')
         \<and> (distinct (uncached_names E qc addr s)
               \<longleftrightarrow> distinct (map (\<lambda>i. random_choices E i ascii_lowercase 8) [0..<k]))"
proof -
  obtain k where k: "k \<le> nat qc"
      "uncached_names E qc addr s =
         map (\<lambda>i. random_choices E i ascii_lowercase 8 @ ''.com'') [0..<k]"
    using uncached_names_issued by blast
  have shape: "length d = 12 \<and> set (take 8 d) \<subseteq> set ''abcdefghijklmnopqrstuvwxyz''
                 \<and> drop 8 d = ''.com''"
    if "d \<in> set (uncached_names E qc addr s)" for d
  proof -
    from that k(2) obtain i where d: "d = random_choices E i ascii_lowercase 8 @ ''.com''"
      by auto
    have "length (random_choices E i ascii_lowercase 8) = 8"
      and "set (random_choices E i ascii_lowercase 8) \<subseteq> set ascii_lowercase"
      using assms ascii_lowercase_nonempty unfolding choices_ok_def by blast+
    then show ?thesis by (simp add: d ascii_lowercase_def)
  qed
  have "distinct (uncached_names E qc addr s)
          \<longleftrightarrow> distinct (map (\<lambda>i. random_choices E i ascii_lowercase 8) [0..<k])"
    unfolding k(2) by (rule suffix_distinct)
  with k shape show ?thesis by blast
qed

theorem uncached_names_shape_witness:
  "choices_ok (stub_env mixed_answers) \<and>
   uncached_names (stub_env mixed_answers) 2 ''8.8.8.8'' init_thread
     = [''qwertzui.com'', ''qwertzui.com''] \<and>
   (\<exists>k\<le>nat 2. uncached_names (stub_env mixed_answers) 2 ''8.8.8.8'' init_thread
        = map (\<lambda>i. random_choices (stub_env mixed_answers) i ascii_lowercase 8 @ ''.com'')
            [0..<k])"
proof -
  have h: "choices_ok (stub_env mixed_answers)"
    by (rule stub_env_choices_ok)
  have v: "uncached_names (stub_env mixed_answers) 2 ''8.8.8.8'' init_thread
     = [''qwertzui.com'', ''qwertzui.com'']"
    by (simp add: uncached_names_def campaign_eval)
  from uncached_names_shape [OF h, of 2 "''8.8.8.8''" init_thread] h v
  show ?thesis by blast
qed

text \<open>
  Claim C9 as stated fails: when \<open>random.choices\<close> returns the same letters twice, two
  probes of one campaign query the same name.
\<close>

theorem repeated_uncached_name:
  "choices_ok (stub_env mixed_answers) \<and>
   \<not> distinct (uncached_names (stub_env mixed_answers) 2 ''8.8.8.8'' init_thread)"
proof -
  have "choices_ok (stub_env mixed_answers)"
    by (rule stub_env_choices_ok)
  moreover have "\<not> distinct (uncached_names (stub_env mixed_answers) 2 ''8.8.8.8'' init_thread)"
    by (simp add: uncached_names_def campaign_eval)
  ultimately show ?thesis by blast
qed

section \<open>The server loop\<close>

lemma run_loop_not_running:
  "\<not> is_running s \<Longrightarrow> run_loop E qc total' idx servers results s = (results, s)"
  by (cases servers) (auto simp add: Let_def poll_def thread_state_stopped_eq)

lemma run_loop_step:
  assumes "is_running s" and "\<not> stop_at_server E idx"
    and "\<forall>ph j. \<not> stop_called (campaign E idx) ph j"
  shows "run_loop E qc total' idx (srv # rest) results s =
           run_loop E qc total' (Suc idx) rest (results @ [campaign_result E qc idx srv])
             (s\<lparr>trace := trace s @ server_events E qc total' idx srv\<rparr>)"
proof -
  obtain nm addr where srv: "srv = (nm, addr)" by (cases srv)
  let ?s2 = "if total' = 0 then s
             else emit (Progress (py_int (pct_double E idx total')) (''Testing '' @ nm @ ''...'')) s"
  have run2: "is_running ?s2" using assms(1) by (simp add: emit_def)
  have "test_single_server (campaign E idx) qc nm addr ?s2 =
     (campaign_result E qc idx srv, s\<lparr>trace := trace s @ server_events E qc total' idx srv\<rparr>)"
    unfolding test_single_server_frame [OF run2 assms(3)]
    by (simp add: campaign_result_def server_events_def srv emit_def)
  then show ?thesis
    using assms(1,2) by (simp add: srv Let_def poll_def)
qed

lemma run_loop_prefix:
  assumes "is_running s" and "k \<le> length servers"
    and "\<forall>j<k. \<not> stop_at_server E (idx + j)
                \<and> (\<forall>ph i. \<not> stop_called (campaign E (idx + j)) ph i)"
  shows "run_loop E qc total' idx servers results s =
           run_loop E qc total' (idx + k) (drop k servers)
             (results @ map (\<lambda>(i, srv). campaign_result E qc i srv)
                           (enumerate idx (take k servers)))
             (s\<lparr>trace := trace s @
                 concat (map (\<lambda>(i, srv). server_events E qc total' i srv)
                           (enumerate idx (take k servers)))\<rparr>)"
  using assms
proof (induction k arbitrary: servers idx results s)
  case 0
  then show ?case by simp
next
  case (Suc k)
  from Suc.prems(2) obtain srv rest where servers: "servers = srv # rest"
    by (cases servers) auto
  have head: "\<not> stop_at_server E idx" "\<forall>ph i. \<not> stop_called (campaign E idx) ph i"
    using Suc.prems(3) [rule_format, of 0] by simp_all
  let ?s' = "s\<lparr>trace := trace s @ server_events E qc total' idx srv\<rparr>"
  have run': "is_running ?s'" using Suc.prems(1) by simp
  have len: "k \<le> length rest" using Suc.prems(2) servers by simp
  have quiet: "\<forall>j<k. \<not> stop_at_server E (Suc idx + j)
                \<and> (\<forall>ph i. \<not> stop_called (campaign E (Suc idx + j)) ph i)"
    using Suc.prems(3) by (metis add_Suc_shift Suc_less_eq)
  show ?case
    unfolding servers run_loop_step [OF Suc.prems(1) head]
      Suc.IH [OF run' len quiet]
    by simp
qed

lemma take_enumerate: "take k (enumerate n xs) = enumerate n (take k xs)"
proof (induction xs arbitrary: k n)
  case Nil
  then show ?case by simp
next
  case (Cons x xs)
  then show ?case by (cases k) simp_all
qed

lemma run_loop_never_stopped:
  assumes "never_stopped E" and "is_running s"
  shows "run_loop E qc total' 0 servers [] s =
           (map (\<lambda>(i, srv). campaign_result E qc i srv) (enumerate 0 servers),
            s\<lparr>trace := trace s @
                concat (map (\<lambda>(i, srv). server_events E qc total' i srv)
                          (enumerate 0 servers))\<rparr>)"
proof -
  have quiet: "\<forall>j<length servers. \<not> stop_at_server E (0 + j)
                \<and> (\<forall>ph i. \<not> stop_called (campaign E (0 + j)) ph i)"
    using assms(1) by (simp add: never_stopped_def)
  show ?thesis
    unfolding run_loop_prefix [OF assms(2) le_refl quiet] by simp
qed

lemma never_stopped_uncancelled: "never_stopped (uncancelled E)"
  by (simp add: never_stopped_def uncancelled_def)

lemma campaign_result_uncancelled:
  assumes "\<forall>ph j. \<not> stop_called (campaign E i) ph j"
  shows "campaign_result (uncancelled E) qc i srv = campaign_result E qc i srv"
proof -
  have "stop_called (campaign E i) = (\<lambda>ph j. False)"
    using assms by (intro ext) simp
  then have "(campaign E i)\<lparr>stop_called := (\<lambda>ph j. False)\<rparr> = campaign E i"
    by (cases "campaign E i") simp
  then show ?thesis by (simp add: campaign_result_def uncancelled_def)
qed

lemma run_loop_cancelled:
  assumes quiet: "quiet_before E k" and stop: "stop_noticed_at E qc k"
    and k: "k < length servers"
  shows "\<not> is_running (snd (run_loop E qc total' 0 servers [] init_thread))
       \<and> take k (fst (run_loop E qc total' 0 servers [] init_thread))
           = map (\<lambda>(i, srv). campaign_result E qc i srv) (enumerate 0 (take k servers))
       \<and> k \<le> length (fst (run_loop E qc total' 0 servers [] init_thread))
       \<and> length (fst (run_loop E qc total' 0 servers [] init_thread)) \<le> Suc k
       \<and> (stop_at_server E k \<longrightarrow> length (fst (run_loop E qc total' 0 servers [] init_thread)) = k)"
proof -
  define R where "R = map (\<lambda>(i, srv). campaign_result E qc i srv) (enumerate 0 (take k servers))"
  define S :: "event thread_state" where "S = init_thread\<lparr>trace := trace init_thread @
                 concat (map (\<lambda>(i, srv). server_events E qc total' i srv)
                           (enumerate 0 (take k servers)))\<rparr>"
  have lenR: "length R = k" using k by (simp add: R_def)
  have runS: "is_running S" by (simp add: S_def)
  have q: "\<forall>j<k. \<not> stop_at_server E (0 + j)
                \<and> (\<forall>ph i. \<not> stop_called (campaign E (0 + j)) ph i)"
    using quiet by (simp add: quiet_before_def)
  have kle: "k \<le> length servers" using k by simp
  have init_run: "is_running (init_thread :: event thread_state)" by simp
  obtain nm addr rest where d: "drop k servers = (nm, addr) # rest"
    using k by (metis Cons_nth_drop_Suc surj_pair)
  have eq: "run_loop E qc total' 0 servers [] init_thread
              = run_loop E qc total' k ((nm, addr) # rest) R S"
    unfolding run_loop_prefix [OF init_run kle q] by (simp add: R_def S_def d)
  show ?thesis
  proof (cases "stop_at_server E k")
    case True
    then have "run_loop E qc total' k ((nm, addr) # rest) R S = (R, stop S)"
      by (simp add: Let_def poll_def stop_def)
    then show ?thesis using True lenR by (simp add: eq stop_def R_def)
  next
    case False
    then obtain j where j: "j < nat qc"
        "stop_called (campaign E k) Cached j \<or> stop_called (campaign E k) Uncached j"
      using stop by (auto simp add: stop_noticed_at_def)
    define s2 where "s2 = (if total' = 0 then S
        else emit (Progress (py_int (pct_double E k total')) (''Testing '' @ nm @ ''...'')) S)"
    define res where "res = fst (test_single_server (campaign E k) qc nm addr s2)"
    define s3 where "s3 = snd (test_single_server (campaign E k) qc nm addr s2)"
    have stopped: "\<not> is_running s3"
      unfolding s3_def by (rule test_single_server_stopped [OF j])
    have "run_loop E qc total' k ((nm, addr) # rest) R S
            = run_loop E qc total' (Suc k) rest (R @ [res]) s3"
      using False runS by (simp add: Let_def poll_def split_beta s2_def res_def s3_def)
    also have "\<dots> = (R @ [res], s3)" by (rule run_loop_not_running [OF stopped])
    finally show ?thesis using False lenR stopped by (simp add: eq R_def)
  qed
qed

subsection \<open>What a run delivers\<close>

lemma is_delivery_Query [simp]: "list_ex is_delivery (map (\<lambda>i. Query (f i) a) is) = False"
  by (induction "is") simp_all

lemma probe_loop_no_delivery:
  "list_ex is_delivery (trace (snd (probe_loop E ph addr is samples s)))
     = list_ex is_delivery (trace s)"
proof -
  obtain issued where
    "trace (snd (probe_loop E ph addr is samples s))
         = trace s @ map (\<lambda>i. Query (query_name E ph i) addr) issued"
    using probe_loop_issued [of "is" E ph addr samples s] by blast
  then show ?thesis by simp
qed

lemma test_single_server_no_delivery:
  "list_ex is_delivery (trace (snd (test_single_server E qc nm addr s)))
     = list_ex is_delivery (trace s)"
  by (simp add: test_single_server_def split_beta Let_def probe_loop_no_delivery)

lemma run_loop_no_delivery:
  "list_ex is_delivery (trace (snd (run_loop E qc total' idx servers results s)))
     = list_ex is_delivery (trace s)"
proof (induction servers arbitrary: idx results s)
  case Nil
  then show ?case by simp
next
  case (Cons srv rest)
  obtain nm addr where srv: "srv = (nm, addr)" by (cases srv)
  show ?case
    by (simp add: srv Let_def split_beta Cons.IH test_single_server_no_delivery
          poll_def stop_def emit_def)
qed

lemma run_delivers_iff_running:
  "list_ex is_delivery (trace (run E servers qc init_thread))
     \<longleftrightarrow> is_running (run E servers qc init_thread)"
  by (simp add: run_def split_beta Let_def emit_def run_loop_no_delivery poll_def stop_def)

lemma progress_of_append: "progress_of (xs @ ys) = progress_of xs @ progress_of ys"
  by (induction xs rule: progress_of.induct) simp_all

lemma progress_of_map_Query [simp]: "progress_of (map (\<lambda>i. Query (f i) a) is) = []"
  by (induction "is") simp_all

lemma probe_loop_progress:
  "progress_of (trace (snd (probe_loop E ph addr is samples s))) = progress_of (trace s)"
proof -
  obtain issued where
    "trace (snd (probe_loop E ph addr is samples s))
         = trace s @ map (\<lambda>i. Query (query_name E ph i) addr) issued"
    using probe_loop_issued [of "is" E ph addr samples s] by blast
  then show ?thesis by (simp add: progress_of_append)
qed

lemma test_single_server_progress:
  "progress_of (trace (snd (test_single_server E qc nm addr s))) = progress_of (trace s)"
  by (simp add: test_single_server_def split_beta Let_def probe_loop_progress)

lemma progress_of_server_events:
  "0 < total' \<Longrightarrow> progress_of (server_events E qc total' i srv)
     = [(py_int (pct_double E i total'), ''Testing '' @ fst srv @ ''...'')]"
  by (simp add: server_events_def progress_of_append test_single_server_progress)

lemma progress_of_concat_events:
  "0 < total' \<Longrightarrow>
   progress_of (concat (map (\<lambda>(i, srv). server_events E qc total' i srv) ps))
     = map (\<lambda>(i, srv). (py_int (pct_double E i total'), ''Testing '' @ fst srv @ ''...'')) ps"
  by (induction ps) (auto simp add: progress_of_append progress_of_server_events)

lemma run_never_stopped:
  assumes "never_stopped E"
  shows "run E servers qc init_thread =
     \<lparr>is_running = True,
      trace = concat (map (\<lambda>(i, srv). server_events E qc (length servers) i srv)
                        (enumerate 0 servers))
              @ [Progress 100 ''Complete!'',
                 Finished (map (\<lambda>(i, srv). campaign_result E qc i srv) (enumerate 0 servers))]\<rparr>"
proof -
  have init_run: "is_running (init_thread :: event thread_state)" by simp
  have "\<not> stop_at_end E" using assms by (simp add: never_stopped_def)
  then show ?thesis
    by (simp add: run_def run_loop_never_stopped [OF assms init_run] poll_def emit_def
          init_thread_trace_update)
qed

lemma run_progress:
  assumes "never_stopped E"
  shows "progress_of (trace (run E servers qc init_thread)) =
     map (\<lambda>(i, srv). (py_int (pct_double E i (length servers)), ''Testing '' @ fst srv @ ''...''))
       (enumerate 0 servers) @ [(100, ''Complete!'')]"
proof (cases "servers = []")
  case True
  then show ?thesis by (simp add: run_never_stopped [OF assms])
next
  case False
  then have "0 < length servers" by simp
  then show ?thesis
    by (simp add: run_never_stopped [OF assms] progress_of_append progress_of_concat_events)
qed

lemma campaign_result_name_ip:
  "name (campaign_result E qc i srv) = fst srv" "ip (campaign_result E qc i srv) = snd srv"
  by (simp_all add: campaign_result_def test_single_server_result aggregate_Inr)

lemma map_results_names:
  "map name (map (\<lambda>(i, srv). campaign_result E qc i srv) (enumerate n servers)) = map fst servers"
  "map ip (map (\<lambda>(i, srv). campaign_result E qc i srv) (enumerate n servers)) = map snd servers"
  by (induction servers arbitrary: n) (simp_all add: campaign_result_name_ip)

subsection \<open>The progress values\<close>

lemma ieee_pct_bounds:
  assumes "ieee_pct f" and "0 < n" and "i < n"
  shows "0 \<le> f i n" and "f i n \<le> 100 * real i / real n + 1 / 2 ^ 43"
    and "100 * real i / real n - 1 / 2 ^ 43 \<le> f i n"
proof -
  define x where "x = 100 * real i / real n"
  have x0: "0 \<le> x" unfolding x_def by simp
  have "real i \<le> real n" using assms(3) by simp
  then have x100: "x \<le> 100" unfolding x_def using assms(2) by (simp add: pos_divide_le_eq)
  have err: "\<bar>f i n - x\<bar> \<le> x / 2 ^ 50"
    using assms unfolding ieee_pct_def x_def by (simp add: less_imp_le)
  have small: "x / 2 ^ 50 \<le> 1 / 2 ^ 43"
    using x100 by (simp add: field_simps)
  have "x / 2 ^ 50 \<le> x" using x0 by (simp add: field_simps)
  with err show "0 \<le> f i n" by linarith
  from err small show "f i n \<le> 100 * real i / real n + 1 / 2 ^ 43"
    unfolding x_def by linarith
  from err small show "100 * real i / real n - 1 / 2 ^ 43 \<le> f i n"
    unfolding x_def by linarith
qed

lemma ieee_pct_step:
  assumes "ieee_pct f" and "n < 100" and "i < j" and "j < n"
  shows "f i n + 1 \<le> f j n"
proof -
  have n0: "0 < n" using assms(3,4) by simp
  have i: "f i n \<le> 100 * real i / real n + 1 / 2 ^ 43"
    using ieee_pct_bounds(2) [OF assms(1) n0] assms(3,4) by simp
  have j: "100 * real j / real n - 1 / 2 ^ 43 \<le> f j n"
    by (rule ieee_pct_bounds(3) [OF assms(1) n0 assms(4)])
  have "real i + 1 \<le> real j" using assms(3) by linarith
  then have "100 * (real i + 1) / real n \<le> 100 * real j / real n"
    using n0 by (simp add: divide_right_mono)
  moreover have "100 / real n \<ge> 100 / 99"
    using assms(2) n0 by (intro divide_left_mono) simp_all
  moreover have "100 * (real i + 1) / real n = 100 * real i / real n + 100 / real n"
    by (simp add: add_divide_distrib distrib_left)
  ultimately have "100 * real i / real n + 100 / 99 \<le> 100 * real j / real n" by linarith
  with i j show ?thesis by simp
qed

lemma ieee_pct_below_100:
  assumes "ieee_pct f" and "n < 100" and "i < n"
  shows "f i n < 100"
proof -
  have n0: "0 < n" using assms(3) by simp
  have "real i + 1 \<le> real n" using assms(3) by linarith
  then have "100 * (real i + 1) / real n \<le> 100"
    using n0 by (simp add: pos_divide_le_eq)
  moreover have "100 / real n \<ge> 100 / 99"
    using assms(2) n0 by (intro divide_left_mono) simp_all
  moreover have "100 * (real i + 1) / real n = 100 * real i / real n + 100 / real n"
    by (simp add: add_divide_distrib distrib_left)
  ultimately have "100 * real i / real n \<le> 100 - 100 / 99" by linarith
  with ieee_pct_bounds(2) [OF assms(1) n0 assms(3)] show ?thesis by simp
qed

lemma py_int_floor: "0 \<le> x \<Longrightarrow> py_int x = \<lfloor>x\<rfloor>"
  by (simp add: py_int_def)

lemma progress_val_strict:
  assumes "ieee_pct f" and "n < 100" and "i < j" and "j < n"
  shows "py_int (f i n) < py_int (f j n)"
proof -
  have n0: "0 < n" using assms(3,4) by simp
  have i0: "0 \<le> f i n" using ieee_pct_bounds(1) [OF assms(1) n0] assms(3,4) by simp
  have j0: "0 \<le> f j n" by (rule ieee_pct_bounds(1) [OF assms(1) n0 assms(4)])
  have "\<lfloor>f i n\<rfloor> + 1 = \<lfloor>f i n + 1\<rfloor>" by simp
  also have "\<dots> \<le> \<lfloor>f j n\<rfloor>" by (rule floor_mono [OF ieee_pct_step [OF assms]])
  finally show ?thesis by (simp add: py_int_floor i0 j0)
qed

lemma progress_val_range:
  assumes "ieee_pct f" and "n < 100" and "i < n"
  shows "0 \<le> py_int (f i n)" and "py_int (f i n) < 100"
proof -
  have n0: "0 < n" using assms(3) by simp
  have i0: "0 \<le> f i n" by (rule ieee_pct_bounds(1) [OF assms(1) n0 assms(3)])
  then show "0 \<le> py_int (f i n)" by (simp add: py_int_floor)
  have "f i n < 100" by (rule ieee_pct_below_100 [OF assms])
  then show "py_int (f i n) < 100" using i0 by (simp add: py_int_floor floor_less_iff)
qed

lemma map_fst_progress:
  "map fst (map (\<lambda>(i, srv). (g i, h srv)) (enumerate 0 servers)) = map g [0..<length servers]"
proof -
  have "map (\<lambda>x. g (fst x)) (enumerate 0 servers) = map g (map fst (enumerate 0 servers))"
    by (simp only: map_map comp_def)
  also have "\<dots> = map g [0..<length servers]"
    by (simp add: map_fst_enumerate)
  finally show ?thesis by (simp add: comp_def split_beta)
qed

lemma progress_values_sorted:
  assumes "ieee_pct f" and "n < 100"
  shows "sorted_wrt (<) (map (\<lambda>i. py_int (f i n)) [0..<n] @ [100])"
proof -
  have "sorted_wrt (\<lambda>i j. py_int (f i n) < py_int (f j n)) [0..<n]"
  proof (rule sorted_wrt_mono_rel [of _ "(<)"])
    show "sorted_wrt (<) [0..<n]" by simp
  next
    fix i j assume "i \<in> set [0..<n]" "j \<in> set [0..<n]" "i < j"
    then show "py_int (f i n) < py_int (f j n)"
      using progress_val_strict [OF assms] by simp
  qed
  then have "sorted_wrt (<) (map (\<lambda>i. py_int (f i n)) [0..<n])"
    by (simp add: sorted_wrt_map)
  moreover have "\<forall>x\<in>set (map (\<lambda>i. py_int (f i n)) [0..<n]). x < 100"
    using progress_val_range(2) [OF assms] by auto
  ultimately show ?thesis by (simp add: sorted_wrt_append)
qed

lemma exact_pct_ieee: "ieee_pct exact_pct"
  by (simp add: ieee_pct_def exact_pct_def)

subsection \<open>Example runs\<close>

lemmas run_eval =
  run_def run_results_def steady_env_def cancel_env_def two_servers_def exact_pct_def py_int_def

lemma never_stopped_steady: "never_stopped steady_env"
  by (simp add: never_stopped_def steady_env_def stub_env_def)

lemma steady_two_servers:
  "trace (run steady_env two_servers 1 init_thread) =
     [Progress 0 ''Testing Google...'',
      Query ''google.com'' ''8.8.8.8'', Query ''qwertzui.com'' ''8.8.8.8'',
      Progress 50 ''Testing Cloudflare...'',
      Query ''google.com'' ''1.1.1.1'', Query ''qwertzui.com'' ''1.1.1.1'',
      Progress 100 ''Complete!'',
      Finished
        [\<lparr>name = ''Google'', ip = ''8.8.8.8'', cached_avg = 20, uncached_avg = 20,
          overall_avg = 20, min_time = 20, max_time = 20, reliability = 100,
          total_queries = 2, successful = 2\<rparr>,
         \<lparr>name = ''Cloudflare'', ip = ''1.1.1.1'', cached_avg = 20, uncached_avg = 20,
          overall_avg = 20, min_time = 20, max_time = 20, reliability = 100,
          total_queries = 2, successful = 2\<rparr>]]"
  by (simp add: run_eval campaign_eval aggregate_Inr)

lemma cancelled_two_servers:
  "run cancel_env two_servers 1 init_thread =
     \<lparr>is_running = False,
      trace = [Progress 0 ''Testing Google...'', Query ''google.com'' ''8.8.8.8'',
               Query ''qwertzui.com'' ''8.8.8.8'']\<rparr>"
  "run_results cancel_env two_servers 1 init_thread =
     [\<lparr>name = ''Google'', ip = ''8.8.8.8'', cached_avg = 20, uncached_avg = 20,
       overall_avg = 20, min_time = 20, max_time = 20, reliability = 100,
       total_queries = 2, successful = 2\<rparr>]"
  by (simp_all add: run_eval campaign_eval aggregate_Inr)

lemma many_servers_unfold:
  "many_servers (Suc (Suc n)) =
     (''dns'', ''192.0.2.1'') # (''dnsx'', ''192.0.2.1'')
       # map (\<lambda>i. (''dns'' @ replicate i (CHR ''x''), ''192.0.2.1'')) [2..<Suc (Suc n)]"
  by (simp add: many_servers_def upt_conv_Cons numeral_2_eq_2 del: upt_Suc)

lemma length_many_servers: "length (many_servers n) = n"
  by (simp add: many_servers_def)

lemma many_servers_101: "many_servers 101 = many_servers (Suc (Suc 99))"
  by simp

section \<open>Progress, completion and cancellation of a run\<close>

text \<open>
  Claim C7, as the code has it. In a run that is never stopped, over fewer than 100
  servers: the trace is, for each server in the order of the list, the progress signal
  \<open>(int((idx / total) * 100), "Testing <name>...")\<close> followed by the queries of that server's
  campaign, and then \<open>(100, "Complete!")\<close> and the finished signal with one result per server
  in the order of the list. The progress values are strictly increasing and lie between \<open>0\<close>
  and \<open>100\<close>, and \<open>(100, "Complete!")\<close> is the only progress signal with that text.
\<close>

theorem uncancelled_run_events:
  assumes "never_stopped E" and "ieee_pct (pct_double E)" and "length servers < 100"
  shows "let n = length servers;
             results = map (\<lambda>(i, srv). campaign_result E qc i srv) (enumerate 0 servers);
             tr = trace (run E servers qc init_thread)
         in tr = concat (map (\<lambda>(i, srv). server_events E qc n i srv) (enumerate 0 servers))
                 @ [Progress 100 ''Complete!'', Finished results]
          \<and> progress_of tr =
               map (\<lambda>(i, srv). (py_int (pct_double E i n), ''Testing '' @ fst srv @ ''...''))
                 (enumerate 0 servers) @ [(100, ''Complete!'')]
          \<and> sorted_wrt (<) (map fst (progress_of tr))
          \<and> (\<forall>p\<in>set (map fst (progress_of tr)). 0 \<le> p \<and> p \<le> 100)
          \<and> filter (\<lambda>pm. snd pm = ''Complete!'') (progress_of tr) = [(100, ''Complete!'')]
          \<and> map name results = map fst servers \<and> map ip results = map snd servers"
proof -
  let ?n = "length servers"
  let ?tr = "trace (run E servers qc init_thread)"
  let ?results = "map (\<lambda>(i, srv). campaign_result E qc i srv) (enumerate 0 servers)"
  have shape: "?tr = concat (map (\<lambda>(i, srv). server_events E qc ?n i srv) (enumerate 0 servers))
                 @ [Progress 100 ''Complete!'', Finished ?results]"
    by (simp add: run_never_stopped [OF assms(1)])
  have prog: "progress_of ?tr =
               map (\<lambda>(i, srv). (py_int (pct_double E i ?n), ''Testing '' @ fst srv @ ''...''))
                 (enumerate 0 servers) @ [(100, ''Complete!'')]"
    by (rule run_progress [OF assms(1)])
  have vals: "map fst (progress_of ?tr) = map (\<lambda>i. py_int (pct_double E i ?n)) [0..<?n] @ [100]"
    using map_fst_progress [of "\<lambda>i. py_int (pct_double E i ?n)"
        "\<lambda>srv. ''Testing '' @ fst srv @ ''...''" servers]
    by (simp add: prog)
  have sorted: "sorted_wrt (<) (map fst (progress_of ?tr))"
    unfolding vals by (rule progress_values_sorted [OF assms(2,3)])
  have range: "\<forall>p\<in>set (map fst (progress_of ?tr)). 0 \<le> p \<and> p \<le> 100"
    unfolding vals
    using progress_val_range [OF assms(2,3)]
    by (auto simp add: less_imp_le)
  have final: "filter (\<lambda>pm. snd pm = ''Complete!'') (progress_of ?tr) = [(100, ''Complete!'')]"
    by (simp add: prog filter_map comp_def split_beta)
  have names: "map name ?results = map fst servers" "map ip ?results = map snd servers"
    by (rule map_results_names)+
  show ?thesis
    unfolding Let_def
    by (intro conjI shape prog sorted range final names)
qed

theorem uncancelled_run_events_witness:
  "never_stopped steady_env \<and> ieee_pct (pct_double steady_env) \<and> length two_servers < 100
 \<and> progress_of (trace (run steady_env two_servers 1 init_thread)) =
      [(0, ''Testing Google...''), (50, ''Testing Cloudflare...''), (100, ''Complete!'')]
 \<and> sorted_wrt (<) (map fst (progress_of (trace (run steady_env two_servers 1 init_thread))))"
proof -
  have h1: "never_stopped steady_env" by (rule never_stopped_steady)
  have h2: "ieee_pct (pct_double steady_env)" by (simp add: steady_env_def exact_pct_ieee)
  have h3: "length two_servers < 100" by (simp add: two_servers_def)
  have p: "progress_of (trace (run steady_env two_servers 1 init_thread)) =
      [(0, ''Testing Google...''), (50, ''Testing Cloudflare...''), (100, ''Complete!'')]"
    by (simp add: steady_two_servers)
  from uncancelled_run_events [OF h1 h2 h3, of 1, unfolded Let_def]
  have "sorted_wrt (<) (map fst (progress_of (trace (run steady_env two_servers 1 init_thread))))"
    by blast
  with h1 h2 h3 p show ?thesis by blast
qed

text \<open>
  Claim C7 as stated fails. With 101 servers the first two progress values are both \<open>0\<close>;
  the first progress signal precedes the first query, so it is emitted before the first
  campaign has started; and the text of the final signal is \<open>Complete!\<close>.
\<close>

theorem progress_repeats_and_precedes:
  "never_stopped steady_env \<and> ieee_pct (pct_double steady_env)
 \<and> \<not> sorted_wrt (<)
       (map fst (progress_of (trace (run steady_env (many_servers 101) 1 init_thread))))
 \<and> take 2 (trace (run steady_env (many_servers 101) 1 init_thread)) =
       [Progress 0 ''Testing dns...'', Query ''google.com'' ''192.0.2.1'']
 \<and> (100, ''Complete'') \<notin> set (progress_of (trace (run steady_env (many_servers 101) 1
                                                    init_thread)))"
proof -
  note ns = never_stopped_steady
  obtain rest where ms: "many_servers 101 = (''dns'', ''192.0.2.1'') # (''dnsx'', ''192.0.2.1'') # rest"
    using many_servers_unfold [of 99] many_servers_101 by metis
  have len: "length (many_servers 101) = 101" by (rule length_many_servers)
  have vals: "map fst (progress_of (trace (run steady_env (many_servers 101) 1 init_thread)))
        = 0 # 0 # map (\<lambda>(i, srv). py_int (exact_pct i 101)) (enumerate 2 rest) @ [100]"
    unfolding run_progress [OF ns] len
    unfolding ms
    by (simp add: steady_env_def exact_pct_def py_int_def comp_def split_beta numeral_2_eq_2)
  have a: "\<not> sorted_wrt (<)
       (map fst (progress_of (trace (run steady_env (many_servers 101) 1 init_thread))))"
    unfolding vals by simp
  have b: "take 2 (trace (run steady_env (many_servers 101) 1 init_thread)) =
       [Progress 0 ''Testing dns...'', Query ''google.com'' ''192.0.2.1'']"
    unfolding run_never_stopped [OF ns] len
    unfolding ms
    by (simp add: server_events_def steady_env_def exact_pct_def py_int_def campaign_eval)
  have c: "(100, ''Complete'') \<notin> set (progress_of (trace (run steady_env (many_servers 101) 1
                                                    init_thread)))"
    unfolding run_progress [OF ns] by auto
  have fp: "ieee_pct (pct_double steady_env)" by (simp add: steady_env_def exact_pct_ieee)
  from ns fp a b c show ?thesis by blast
qed

text \<open>
  Claim C2, as the code has it. Let \<open>stop\<close> be noticed first at server \<open>k\<close>, with at least
  one campaign finished before and the last server not yet started. Then \<open>run\<close> ends with
  the flag cleared and emits neither \<open>finished_signal\<close> nor \<open>error_signal\<close>: the results
  collected so far are not delivered. The list \<open>results\<close> the loop leaves behind has fewer
  entries than there are servers, and its first \<open>k\<close> entries are those of the run without
  any \<open>stop\<close>.
\<close>

theorem cancelled_run_discards_results:
  assumes "quiet_before E k" and "stop_noticed_at E qc k" and "1 \<le> k"
    and "stop_at_server E k \<and> k < length servers \<or> Suc k < length servers"
  shows "\<not> is_running (run E servers qc init_thread)
       \<and> \<not> list_ex is_delivery (trace (run E servers qc init_thread))
       \<and> take k (run_results E servers qc init_thread)
           = take k (run_results (uncancelled E) servers qc init_thread)
       \<and> k \<le> length (run_results E servers qc init_thread)
       \<and> length (run_results E servers qc init_thread) < length servers"
proof -
  have k: "k < length servers" using assms(4) by auto
  note c = run_loop_cancelled [OF assms(1,2) k, of "length servers"]
  have stopped: "\<not> is_running (run E servers qc init_thread)"
    using c by (simp add: run_def split_beta Let_def poll_def stop_def)
  have init_run: "is_running (init_thread :: event thread_state)" by simp
  have "take k (run_results (uncancelled E) servers qc init_thread)
          = map (\<lambda>(i, srv). campaign_result (uncancelled E) qc i srv)
              (enumerate 0 (take k servers))"
    by (simp add: run_results_def run_loop_never_stopped [OF never_stopped_uncancelled init_run]
          take_map take_enumerate)
  also have "\<dots> = map (\<lambda>(i, srv). campaign_result E qc i srv) (enumerate 0 (take k servers))"
  proof (rule map_cong [OF refl])
    fix x assume "x \<in> set (enumerate 0 (take k servers))"
    then have "fst x < k" by (simp add: in_set_enumerate_eq)
    then obtain i srv where x: "x = (i, srv)" "i < k" by (cases x) simp
    then have "\<forall>ph j. \<not> stop_called (campaign E i) ph j"
      using assms(1) by (simp add: quiet_before_def)
    then show "(case x of (i, srv) \<Rightarrow> campaign_result (uncancelled E) qc i srv)
             = (case x of (i, srv) \<Rightarrow> campaign_result E qc i srv)"
      by (simp add: x campaign_result_uncancelled)
  qed
  finally have same: "take k (run_results E servers qc init_thread)
           = take k (run_results (uncancelled E) servers qc init_thread)"
    using c by (simp add: run_results_def)
  have len: "k \<le> length (run_results E servers qc init_thread)"
       "length (run_results E servers qc init_thread) < length servers"
    using c assms(4) by (auto simp add: run_results_def)
  from stopped same len show ?thesis
    by (simp add: run_delivers_iff_running)
qed

theorem cancelled_run_discards_results_witness:
  "quiet_before cancel_env 1 \<and> stop_noticed_at cancel_env 1 1 \<and> (1::nat) \<le> 1
   \<and> (stop_at_server cancel_env 1 \<and> 1 < length two_servers \<or> Suc 1 < length two_servers)
   \<and> \<not> list_ex is_delivery (trace (run cancel_env two_servers 1 init_thread))
   \<and> take 1 (run_results cancel_env two_servers 1 init_thread)
       = take 1 (run_results (uncancelled cancel_env) two_servers 1 init_thread)
   \<and> length (run_results cancel_env two_servers 1 init_thread) < length two_servers"
proof -
  have h1: "quiet_before cancel_env 1"
    by (simp add: quiet_before_def cancel_env_def steady_env_def stub_env_def)
  have h2: "stop_noticed_at cancel_env 1 1"
    by (simp add: stop_noticed_at_def cancel_env_def)
  have h3: "(1::nat) \<le> 1" by simp
  have h4: "stop_at_server cancel_env 1 \<and> 1 < length two_servers \<or> Suc 1 < length two_servers"
    by (simp add: cancel_env_def two_servers_def)
  from cancelled_run_discards_results [OF h1 h2 h3 h4] h1 h2 h4
  show ?thesis by simp
qed

text \<open>
  Claim C2 as stated fails: stopped after the first of two servers, the run has a result for
  the first server in \<open>results\<close> and ends without any signal that carries it.
\<close>

theorem cancelled_run_delivers_nothing:
  "quiet_before cancel_env 1 \<and> stop_noticed_at cancel_env 1 1
 \<and> run cancel_env two_servers 1 init_thread =
     \<lparr>is_running = False,
      trace = [Progress 0 ''Testing Google...'', Query ''google.com'' ''8.8.8.8'',
               Query ''qwertzui.com'' ''8.8.8.8'']\<rparr>
 \<and> run_results cancel_env two_servers 1 init_thread =
     [\<lparr>name = ''Google'', ip = ''8.8.8.8'', cached_avg = 20, uncached_avg = 20,
       overall_avg = 20, min_time = 20, max_time = 20, reliability = 100,
       total_queries = 2, successful = 2\<rparr>]"
proof -
  have "quiet_before cancel_env 1"
    by (simp add: quiet_before_def cancel_env_def steady_env_def stub_env_def)
  moreover have "stop_noticed_at cancel_env 1 1"
    by (simp add: stop_noticed_at_def cancel_env_def)
  ultimately show ?thesis by (simp add: cancelled_two_servers)
qed

text \<open>
  Claim C4, as the code has it. \<open>run\<close> on an empty dict of servers does not emit
  \<open>error_signal\<close>: unless stopped it completes with \<open>(100, "Complete!")\<close> and an empty list of
  results. The empty selection is rejected earlier: \<open>start_benchmark\<close> starts a thread only
  with a non-empty selection, and shows its warning when no server is selected.
\<close>

theorem empty_target_list:
  "trace (run E [] qc init_thread) =
     (if stop_at_end E then [] else [Progress 100 ''Complete!'', Finished []])
 \<and> (\<forall>servers q. start_benchmark D cb spin = Started servers q \<longrightarrow> servers \<noteq> [] \<and> q = spin)
 \<and> (\<not> list_ex (\<lambda>(n, a). cb n = None) D \<and> filter (\<lambda>(n, a). cb n = Some True) D = []
       \<longrightarrow> start_benchmark D cb spin = WarningBox ''Warning'' ''Please select at least one server!'')"
  by (simp add: run_def poll_def stop_def emit_def start_benchmark_def Let_def)

theorem empty_target_list_witness:
  "\<not> list_ex (\<lambda>(n, a). no_selection n = None) two_servers
 \<and> filter (\<lambda>(n, a). no_selection n = Some True) two_servers = []
 \<and> start_benchmark two_servers no_selection 5
      = WarningBox ''Warning'' ''Please select at least one server!''
 \<and> start_benchmark two_servers google_selected 5 = Started [(''Google'', ''8.8.8.8'')] 5
 \<and> [(''Google'', ''8.8.8.8'')] \<noteq> ([] :: (string \<times> string) list)"
proof -
  have h: "\<not> list_ex (\<lambda>(n, a). no_selection n = None) two_servers
         \<and> filter (\<lambda>(n, a). no_selection n = Some True) two_servers = []"
    by (simp add: no_selection_def two_servers_def)
  have g: "start_benchmark two_servers google_selected 5 = Started [(''Google'', ''8.8.8.8'')] 5"
    by (simp add: start_benchmark_def google_selected_def two_servers_def)
  from empty_target_list [of steady_env 5 two_servers no_selection 5] h
  have w: "start_benchmark two_servers no_selection 5
      = WarningBox ''Warning'' ''Please select at least one server!''"
    by blast
  from empty_target_list [of steady_env 5 two_servers google_selected 5] g
  have "[(''Google'', ''8.8.8.8'')] \<noteq> ([] :: (string \<times> string) list)"
    by blast
  with h g w show ?thesis by blast
qed

text \<open>
  Claim C4 as stated fails: a run on the empty list completes normally.
\<close>

theorem empty_run_completes:
  "run steady_env [] 5 init_thread =
     \<lparr>is_running = True, trace = [Progress 100 ''Complete!'', Finished []]\<rparr>"
  by (simp add: run_eval poll_def emit_def init_thread_def)

section \<open>The security check\<close>

lemma sec_queries_of_append:
  "sec_queries_of (xs @ ys) = sec_queries_of xs @ sec_queries_of ys"
  by (induction xs rule: sec_queries_of.induct) simp_all

lemma sec_results_of_append:
  "sec_results_of (xs @ ys) = sec_results_of xs @ sec_results_of ys"
  by (induction xs rule: sec_results_of.induct) simp_all

lemma security_loop_obs:
  "is_running s \<Longrightarrow>
   \<exists>k\<le>length servers.
      sec_queries_of (trace (security_loop E total' i servers s)) =
        sec_queries_of (trace s) @
        map (\<lambda>(n, a). SecQuery ''cloudflare.com'' DNSKEY True a) (take k servers)
    \<and> sec_results_of (trace (security_loop E total' i servers s)) =
        sec_results_of (trace s) @
        map (\<lambda>(j, (n, a)). (n, dnssec_status (sec_udp E j))) (enumerate i (take k servers))
    \<and> ((\<forall>j. \<not> sec_stop_at_server E j) \<longrightarrow> k = length servers)"
proof (induction servers arbitrary: i s)
  case Nil
  then show ?case by simp
next
  case (Cons srv rest)
  obtain nm addr where srv: "srv = (nm, addr)" by (cases srv)
  show ?case
  proof (cases "sec_stop_at_server E i")
    case True
    then show ?thesis
      by (intro exI [of _ 0]) (auto simp add: srv Let_def poll_def stop_def)
  next
    case False
    define s3 where "s3 = emit (ResultSig nm (dnssec_status (sec_udp E i)))
                            (emit (SecQuery ''cloudflare.com'' DNSKEY True addr) s)"
    define s4 where "s4 = (if total' = 0 then s3
                           else emit (SecProgress (py_int (sec_pct_double E (i + 1) total'))) s3)"
    have run4: "is_running s4"
      using Cons.prems by (simp add: s4_def s3_def emit_def)
    have step: "security_loop E total' i ((nm, addr) # rest) s
                  = security_loop E total' (Suc i) rest s4"
      using False Cons.prems by (simp add: Let_def poll_def s4_def s3_def)
    have q4: "sec_queries_of (trace s4) =
                sec_queries_of (trace s) @ [SecQuery ''cloudflare.com'' DNSKEY True addr]"
      by (simp add: s4_def s3_def emit_def sec_queries_of_append)
    have r4: "sec_results_of (trace s4) =
                sec_results_of (trace s) @ [(nm, dnssec_status (sec_udp E i))]"
      by (simp add: s4_def s3_def emit_def sec_results_of_append)
    from Cons.IH [OF run4, of "Suc i"] obtain k where k: "k \<le> length rest"
      "sec_queries_of (trace (security_loop E total' (Suc i) rest s4)) =
        sec_queries_of (trace s4) @
        map (\<lambda>(n, a). SecQuery ''cloudflare.com'' DNSKEY True a) (take k rest)"
      "sec_results_of (trace (security_loop E total' (Suc i) rest s4)) =
        sec_results_of (trace s4) @
        map (\<lambda>(j, (n, a)). (n, dnssec_status (sec_udp E j))) (enumerate (Suc i) (take k rest))"
      "(\<forall>j. \<not> sec_stop_at_server E j) \<longrightarrow> k = length rest"
      by blast
    show ?thesis
      using k by (intro exI [of _ "Suc k"]) (simp add: step q4 r4 srv del: security_loop.simps)
  qed
qed

lemma four_servers_run:
  "trace (security_run (sec_stub_env four_replies) four_servers init_thread) =
     [SecQuery ''cloudflare.com'' DNSKEY True ''8.8.8.8'', ResultSig ''Google'' ''valid'',
      SecProgress 25,
      SecQuery ''cloudflare.com'' DNSKEY True ''1.1.1.1'', ResultSig ''Cloudflare'' ''signed'',
      SecProgress 50,
      SecQuery ''cloudflare.com'' DNSKEY True ''9.9.9.9'', ResultSig ''Quad9'' ''unsigned'',
      SecProgress 75,
      SecQuery ''cloudflare.com'' DNSKEY True ''4.2.2.1'', ResultSig ''Level3'' ''error'',
      SecProgress 100,
      SecFinished]"
  by (simp add: security_run_def sec_stub_env_def four_replies_def four_servers_def
        dnssec_status_def exact_pct_def py_int_def poll_def emit_def init_thread_def Let_def)

text \<open>
  Claim C5. The status of a server is \<open>error\<close> when the query raises (time-out, transport
  error, malformed response); otherwise \<open>valid\<close> when the answer section has an RRSIG
  record set, else \<open>signed\<close> when it has a DNSKEY record set, else \<open>unsigned\<close>. One check
  cycle sends exactly one query to each server it reaches, in the order of the list, and
  emits one result for it; it reaches every server unless \<open>stop\<close> is noticed.
\<close>

theorem security_check:
  "dnssec_status (Failed e) = ''error''
 \<and> dnssec_status (Response answer) =
     (if \<exists>rr\<in>set answer. rdtype rr = RRSIG then ''valid''
      else if \<exists>rr\<in>set answer. rdtype rr = DNSKEY then ''signed'' else ''unsigned'')
 \<and> (\<exists>k\<le>length servers.
      sec_queries_of (trace (security_run E servers init_thread)) =
        map (\<lambda>(n, a). SecQuery ''cloudflare.com'' DNSKEY True a) (take k servers)
    \<and> sec_results_of (trace (security_run E servers init_thread)) =
        map (\<lambda>(j, (n, a)). (n, dnssec_status (sec_udp E j))) (enumerate 0 (take k servers))
    \<and> ((\<forall>j. \<not> sec_stop_at_server E j) \<longrightarrow> k = length servers))"
proof -
  have a: "dnssec_status (Failed e) = ''error''" by (simp add: dnssec_status_def)
  have b: "dnssec_status (Response answer) =
     (if \<exists>rr\<in>set answer. rdtype rr = RRSIG then ''valid''
      else if \<exists>rr\<in>set answer. rdtype rr = DNSKEY then ''signed'' else ''unsigned'')"
    by (simp add: dnssec_status_def Let_def list_ex_iff)
  have run0: "is_running (init_thread :: sec_event thread_state)" by simp
  from security_loop_obs [OF run0, of servers E "length servers" 0]
  have c: "\<exists>k\<le>length servers.
      sec_queries_of (trace (security_run E servers init_thread)) =
        map (\<lambda>(n, a). SecQuery ''cloudflare.com'' DNSKEY True a) (take k servers)
    \<and> sec_results_of (trace (security_run E servers init_thread)) =
        map (\<lambda>(j, (n, a)). (n, dnssec_status (sec_udp E j))) (enumerate 0 (take k servers))
    \<and> ((\<forall>j. \<not> sec_stop_at_server E j) \<longrightarrow> k = length servers)"
    by (simp add: security_run_def emit_def sec_queries_of_append sec_results_of_append)
  from a b c show ?thesis by blast
qed

theorem security_check_witness:
  "(\<forall>j. \<not> sec_stop_at_server (sec_stub_env four_replies) j)
 \<and> sec_queries_of (trace (security_run (sec_stub_env four_replies) four_servers init_thread)) =
      map (\<lambda>(n, a). SecQuery ''cloudflare.com'' DNSKEY True a) four_servers
 \<and> sec_results_of (trace (security_run (sec_stub_env four_replies) four_servers init_thread)) =
      [(''Google'', ''valid''), (''Cloudflare'', ''signed''), (''Quad9'', ''unsigned''),
       (''Level3'', ''error'')]"
proof -
  have h: "\<forall>j. \<not> sec_stop_at_server (sec_stub_env four_replies) j"
    by (simp add: sec_stub_env_def)
  from security_check [of Timeout "[]" four_servers "sec_stub_env four_replies"] h
  obtain k where "k = length four_servers"
    "sec_queries_of (trace (security_run (sec_stub_env four_replies) four_servers init_thread)) =
       map (\<lambda>(n, a). SecQuery ''cloudflare.com'' DNSKEY True a) (take k four_servers)"
    by blast
  then have q: "sec_queries_of (trace (security_run (sec_stub_env four_replies) four_servers
                  init_thread)) =
       map (\<lambda>(n, a). SecQuery ''cloudflare.com'' DNSKEY True a) four_servers"
    by simp
  have r: "sec_results_of (trace (security_run (sec_stub_env four_replies) four_servers
             init_thread)) =
      [(''Google'', ''valid''), (''Cloudflare'', ''signed''), (''Quad9'', ''unsigned''),
       (''Level3'', ''error'')]"
    by (simp add: four_servers_run)
  from h q r show ?thesis by blast
qed

end
